theory Spec2Isabelle
  imports Main
begin

section \<open>Values and elements\<close>

text \<open>
  The elements of a collection are plain JavaScript objects read from a JSON file. A field
  holds \<open>undefined\<close>, \<open>null\<close>, a boolean, a number or a string; numbers are integers
  here (no fractions, no NaN literal). An element is the list of its own properties in
  insertion order.
\<close>

datatype jsval = JUndef | JNull | JBool bool | JNum int | JStr string

type_synonym element = "(string \<times> jsval) list"

text \<open>\<open>el[k]\<close>: a missing property reads as \<open>undefined\<close>.\<close>

definition get_field :: "element \<Rightarrow> string \<Rightarrow> jsval" where
  "get_field el k = (case map_of el k of None \<Rightarrow> JUndef | Some v \<Rightarrow> v)"

text \<open>\<open>Reflect.has(el, k)\<close> on an object without inherited properties of that name.\<close>

definition has_field :: "element \<Rightarrow> string \<Rightarrow> bool" where
  "has_field el k = (map_of el k \<noteq> None)"

text \<open>\<open>el[k] = v\<close>: overwrite the property in place, or append a new one.\<close>

fun set_field :: "(string \<times> 'v) list \<Rightarrow> string \<Rightarrow> 'v \<Rightarrow> (string \<times> 'v) list" where
  "set_field [] k v = [(k, v)]"
| "set_field ((k', v') # ps) k v =
     (if k' = k then (k, v) # ps else (k', v') # set_field ps k v)"

text \<open>\<open>Object.assign(target, source)\<close>: every property of the source is written to the
  target, in the source's order.\<close>

fun assign :: "element \<Rightarrow> element \<Rightarrow> element" where
  "assign target [] = target"
| "assign target ((k, v) # src) = assign (set_field target k v) src"

subsection \<open>The relational operators\<close>

text \<open>
  \<open>a < b\<close> of the language: two strings are compared by their code units (characters
  are bytes here, which orders ASCII strings as the language does), anything else is
  converted to a number first, and a comparison with NaN is false. The conversion of a
  string to a number is modelled for decimal integer literals (and the empty string, which
  is 0); every other string converts to NaN.
\<close>

fun str_lt :: "string \<Rightarrow> string \<Rightarrow> bool" where
  "str_lt [] [] = False"
| "str_lt [] (y # ys) = True"
| "str_lt (x # xs) [] = False"
| "str_lt (x # xs) (y # ys) =
     ((of_char x :: nat) < of_char y \<or> (x = y \<and> str_lt xs ys))"

definition is_digit :: "char \<Rightarrow> bool" where
  "is_digit c = (48 \<le> (of_char c :: nat) \<and> (of_char c :: nat) \<le> 57)"

definition digits_value :: "string \<Rightarrow> int" where
  "digits_value s = foldl (\<lambda>acc c. 10 * acc + (int (of_char c) - 48)) 0 s"

definition str_to_number :: "string \<Rightarrow> int option" where
  "str_to_number s =
     (case s of
        [] \<Rightarrow> Some 0
      | c # cs \<Rightarrow>
          if c = CHR ''-'' \<and> cs \<noteq> [] \<and> list_all is_digit cs then Some (- digits_value cs)
          else if c = CHR ''+'' \<and> cs \<noteq> [] \<and> list_all is_digit cs then Some (digits_value cs)
          else if list_all is_digit s then Some (digits_value s)
          else None)"

fun to_number :: "jsval \<Rightarrow> int option" where
  "to_number JUndef = None"
| "to_number JNull = Some 0"
| "to_number (JBool b) = Some (if b then 1 else 0)"
| "to_number (JNum n) = Some n"
| "to_number (JStr s) = str_to_number s"

fun js_lt :: "jsval \<Rightarrow> jsval \<Rightarrow> bool" where
  "js_lt (JStr s) (JStr t) = str_lt s t"
| "js_lt a b =
     (case (to_number a, to_number b) of
        (Some x, Some y) \<Rightarrow> x < y
      | _ \<Rightarrow> False)"

text \<open>\<open>a > b\<close> is \<open>b < a\<close> with the operands evaluated in the written order.\<close>

definition js_gt :: "jsval \<Rightarrow> jsval \<Rightarrow> bool" where
  "js_gt a b = js_lt b a"

section \<open>The collection\<close>

text \<open>A comparator returns a number, of which the code reads the sign; the results are
  integers here (a NaN result, which the binary search takes for equal, is not
  modelled).\<close>

type_synonym comparator = "element \<Rightarrow> element \<Rightarrow> int"

text \<open>The errors: a \<open>TypeError\<close>, and the error of a file that cannot be read.\<close>

datatype error = TypeError | ReadError

text \<open>The result of an \<open>async\<close> method: the caller receives a promise, and an exception
  thrown in the method's body rejects that promise.\<close>

datatype 'a promise = Rejected error | Fulfilled 'a

text \<open>
  The options of the constructor. The \<open>save\<close> routine is supplied by the caller of the
  class; the model counts the calls made to it and takes its promise to resolve.
\<close>

record options =
  opt_name :: string
  opt_comparator :: "comparator option"
  opt_elements :: "element list"
  opt_primaryKey :: string

text \<open>
  The object under construction and afterwards. \<open>primaryKey\<close> is \<open>None\<close> while the field is
  still \<open>undefined\<close>, \<open>comparator\<close> is \<open>None\<close> when the object's own default comparator is
  in use, \<open>elements\<close> is the content of the backing array and \<open>saves\<close> the number of calls
  of \<open>startSaving\<close>.
\<close>

record collection =
  comparator :: "comparator option"
  name :: string
  primaryKey :: "string option"
  elements :: "element list"
  saves :: nat

text \<open>\<open>a[this.primaryKey]\<close>: an \<open>undefined\<close> property key is the property named
  \<open>"undefined"\<close>.\<close>

definition pk_name :: "string option \<Rightarrow> string" where
  "pk_name pk = (case pk of None \<Rightarrow> ''undefined'' | Some k \<Rightarrow> k)"

definition key_of :: "string option \<Rightarrow> element \<Rightarrow> jsval" where
  "key_of pk a = get_field a (pk_name pk)"

definition defaultComparator :: "string option \<Rightarrow> comparator" where
  "defaultComparator pk a b =
     (if js_lt (key_of pk a) (key_of pk b) then - 1
      else if js_gt (key_of pk a) (key_of pk b) then 1
      else 0)"

text \<open>\<open>this.comparator\<close> as it behaves when called: the default comparator reads
  \<open>this.primaryKey\<close> at the time of the call.\<close>

definition the_comparator :: "collection \<Rightarrow> comparator" where
  "the_comparator c =
     (case comparator c of Some f \<Rightarrow> f | None \<Rightarrow> defaultComparator (primaryKey c))"

subsection \<open>Sorting\<close>

text \<open>
  \<open>Array.prototype.sort(comparefn)\<close> is stable, and for a consistent comparator its result
  is the unique stable arrangement in which \<open>comparefn(a, b) \<le> 0\<close> for \<open>a\<close> before \<open>b\<close>;
  insertion from the right computes that arrangement.
\<close>

fun sort_insert :: "('a \<Rightarrow> 'a \<Rightarrow> int) \<Rightarrow> 'a \<Rightarrow> 'a list \<Rightarrow> 'a list" where
  "sort_insert cmp x [] = [x]"
| "sort_insert cmp x (y # ys) =
     (if cmp x y \<le> 0 then x # y # ys else y # sort_insert cmp x ys)"

definition js_sort :: "('a \<Rightarrow> 'a \<Rightarrow> int) \<Rightarrow> 'a list \<Rightarrow> 'a list" where
  "js_sort cmp xs = foldr (sort_insert cmp) xs []"

text \<open>The order of the backing array: no element is followed by a smaller one.\<close>

definition sorted_by :: "comparator \<Rightarrow> element list \<Rightarrow> bool" where
  "sorted_by cmp xs = sorted_wrt (\<lambda>a b. cmp a b \<le> 0) xs"

subsection \<open>Construction\<close>

text \<open>
  The constructor assigns \<open>comparator\<close>, sorts the given array with it, and only then
  assigns \<open>primaryKey\<close>, \<open>save\<close> and \<open>name\<close>; the field initialiser of \<open>defaultComparator\<close>
  has run before the body.
\<close>

definition Collection_new :: "options \<Rightarrow> collection" where
  "Collection_new opts =
     (let this0 = \<lparr>comparator = opt_comparator opts, name = [], primaryKey = None,
                   elements = [], saves = 0\<rparr>;
          this1 = this0\<lparr>elements := js_sort (the_comparator this0) (opt_elements opts)\<rparr>;
          this2 = this1\<lparr>primaryKey := Some (opt_primaryKey opts)\<rparr>
      in this2\<lparr>name := opt_name opts\<rparr>)"

subsection \<open>Binary search\<close>

text \<open>
  The loop of \<open>searchIndex\<close>. \<open>right\<close> starts at \<open>length - 1\<close> and may become \<open>-1\<close>, so the
  bounds are integers; \<open>mid\<close> stays within \<open>left .. right\<close>, inside the array.
\<close>

function searchIndex_loop ::
  "comparator \<Rightarrow> element list \<Rightarrow> element \<Rightarrow> int \<Rightarrow> int \<Rightarrow> nat \<times> bool" where
  "searchIndex_loop cmp els el left right =
     (if left \<le> right then
        (let mid = (left + right) div 2;
             c = cmp el (els ! nat mid)
         in if c < 0 then searchIndex_loop cmp els el left (mid - 1)
            else if c > 0 then searchIndex_loop cmp els el (mid + 1) right
            else (nat mid, True))
      else (nat left, False))"
  by pat_completeness auto
termination
  by (relation "measure (\<lambda>(cmp, els, el, left, right). nat (right - left + 1))") auto

definition searchIndex :: "collection \<Rightarrow> element \<Rightarrow> error + nat \<times> bool" where
  "searchIndex c el =
     (if \<not> has_field el (pk_name (primaryKey c)) then Inl TypeError
      else Inr (searchIndex_loop (the_comparator c) (elements c) el 0
                  (int (length (elements c)) - 1)))"

subsection \<open>The operations\<close>

definition startSaving :: "collection \<Rightarrow> collection" where
  "startSaving c = c\<lparr>saves := Suc (saves c)\<rparr>"

definition Collection_insert :: "collection \<Rightarrow> element \<Rightarrow> bool promise \<times> collection" where
  "Collection_insert c el =
     (case searchIndex c el of
        Inl e \<Rightarrow> (Rejected e, c)
      | Inr (index, found) \<Rightarrow>
          if found then (Fulfilled False, c)
          else (Fulfilled True,
                startSaving (c\<lparr>elements := take index (elements c) @ [el] @
                                             drop index (elements c)\<rparr>)))"

definition Collection_update :: "collection \<Rightarrow> element \<Rightarrow> bool promise \<times> collection" where
  "Collection_update c el =
     (if \<not> has_field el (pk_name (primaryKey c)) then (Rejected TypeError, c)
      else
        (case searchIndex c el of
           Inl e \<Rightarrow> (Rejected e, c)
         | Inr (index, found) \<Rightarrow>
             if \<not> found then (Fulfilled False, c)
             else (Fulfilled True,
                   startSaving (c\<lparr>elements :=
                     (elements c)[index := assign (elements c ! index) el]\<rparr>))))"

definition Collection_remove :: "collection \<Rightarrow> element \<Rightarrow> bool promise \<times> collection" where
  "Collection_remove c el =
     (case searchIndex c el of
        Inl e \<Rightarrow> (Rejected e, c)
      | Inr (index, found) \<Rightarrow>
          if \<not> found then (Fulfilled False, c)
          else (Fulfilled True,
                startSaving (c\<lparr>elements := take index (elements c) @
                                             drop (Suc index) (elements c)\<rparr>)))"

definition Collection_find :: "collection \<Rightarrow> element \<Rightarrow> error + element option" where
  "Collection_find c el =
     (case searchIndex c el of
        Inl e \<Rightarrow> Inl e
      | Inr (index, found) \<Rightarrow>
          if \<not> found then Inr None else Inr (Some (elements c ! index)))"

text \<open>
  \<open>removeAll\<close> walks the live backing array through the collection's iterator, which reads
  index \<open>i\<close> of the array as it is at that moment, and calls \<open>remove\<close> without awaiting
  it: the splice of \<open>remove\<close> has happened when the call returns, and a rejection of its
  promise is not observed by the loop.
\<close>

function removeAll_loop ::
  "(element \<Rightarrow> bool) option \<Rightarrow> collection \<Rightarrow> nat \<Rightarrow> nat \<Rightarrow> nat \<times> collection" where
  "removeAll_loop cond c i len =
     (if i < length (elements c) then
        (let el = elements c ! i
         in if (case cond of None \<Rightarrow> True | Some p \<Rightarrow> p el)
            then removeAll_loop cond (snd (Collection_remove c el)) (Suc i) (Suc len)
            else removeAll_loop cond c (Suc i) len)
      else (len, c))"
  by pat_completeness auto
termination
  by (relation "measure (\<lambda>(cond, c, i, len). length (elements c) - i)")
     (auto simp: Collection_remove_def startSaving_def split: sum.splits prod.splits)

definition Collection_removeAll ::
  "collection \<Rightarrow> (element \<Rightarrow> bool) option \<Rightarrow> nat \<times> collection" where
  "Collection_removeAll c cond = removeAll_loop cond c 0 0"

section \<open>The database\<close>

text \<open>
  The root object maps a collection name to a value. Arrays are objects with an identity:
  the root object and every collection made for a name hold a reference to the same
  array, so the arrays live in a store and the root object holds their addresses. The
  root object is a plain object, as \<open>JSON.parse\<close> and an object literal give: a name it
  does not have itself is looked up in \<open>Object.prototype\<close>, and \<open>Inherited\<close> is the member
  found there (a function, or the prototype object for \<open>__proto__\<close>).
\<close>

datatype rootval = Arr nat | Prim jsval | Obj element | Inherited

text \<open>The truthiness that \<open>||\<close> tests: arrays, objects and functions are truthy.\<close>

fun truthy :: "rootval \<Rightarrow> bool" where
  "truthy (Arr a) = True"
| "truthy (Obj el) = True"
| "truthy Inherited = True"
| "truthy (Prim JUndef) = False"
| "truthy (Prim JNull) = False"
| "truthy (Prim (JBool b)) = b"
| "truthy (Prim (JNum n)) = (n \<noteq> 0)"
| "truthy (Prim (JStr s)) = (s \<noteq> [])"

text \<open>
  An entry of an array of the root object is a record or \<open>null\<close>; the code checks neither.
  Entries of other kinds (numbers, strings, nested arrays) are not represented.
\<close>

datatype item = Rec element | Null

text \<open>A comparator supplied to the factory is called with entries of the array as well as
  with arguments of the methods; it is taken not to throw.\<close>

type_synonym item_comparator = "item \<Rightarrow> item \<Rightarrow> int"

definition on_records :: "item_comparator \<Rightarrow> comparator" where
  "on_records f a b = f (Rec a) (Rec b)"

text \<open>The records of an array, when it holds nothing else.\<close>

fun records :: "item list \<Rightarrow> element list option" where
  "records [] = Some []"
| "records (Rec el # xs) = (case records xs of None \<Rightarrow> None | Some els \<Rightarrow> Some (el # els))"
| "records (Null # xs) = None"

text \<open>
  \<open>unhandled\<close> lists the rejections of promises that nothing awaits or catches; the
  runtime reports them once the current call has returned, and ends the process by
  default. \<open>writes\<close> counts the saves started.
\<close>

record database =
  data :: "(string \<times> rootval) list"
  heap :: "nat \<Rightarrow> item list"
  fresh :: nat
  writes :: nat
  unhandled :: "error list"

text \<open>A root object as a JSON text or the \<open>init\<close> option denotes it, before its arrays
  are placed in the store.\<close>

datatype json_prop = PArr "item list" | PPrim jsval | PObj element

type_synonym json_root = "(string \<times> json_prop) list"

fun load_root :: "json_root \<Rightarrow> database \<Rightarrow> database" where
  "load_root [] db = db"
| "load_root ((k, PArr xs) # ps) db =
     load_root ps (db\<lparr>data := set_field (data db) k (Arr (fresh db)),
                       heap := (heap db)(fresh db := xs), fresh := Suc (fresh db)\<rparr>)"
| "load_root ((k, PPrim v) # ps) db = load_root ps (db\<lparr>data := set_field (data db) k (Prim v)\<rparr>)"
| "load_root ((k, PObj el) # ps) db = load_root ps (db\<lparr>data := set_field (data db) k (Obj el)\<rparr>)"

text \<open>
  What \<open>databaseFile.read()\<close> does when \<open>connect\<close> calls it. A synchronous \<open>read\<close> throws
  or returns the text of the file. The \<open>read\<close> of \<open>createFile\<close> in \<open>database-file.ts\<close> is
  \<open>async\<close>: it returns a promise, which is rejected later when the file cannot be read
  (\<open>ReadPromise True\<close>) and fulfilled with the text otherwise (\<open>ReadPromise False\<close>).
\<close>

datatype read_outcome = ReadThrows | ReadText string | ReadPromise bool

text \<open>
  \<open>JSON.parse\<close> is taken as a parameter: \<open>None\<close> when it throws, the root object
  otherwise (a text whose value is not an object is outside the model). Given a promise,
  \<open>JSON.parse\<close> converts it to the string \<open>[object Promise]\<close>, which is no JSON text: it
  throws, and the \<open>catch\<close> of \<open>connect\<close> takes \<open>init\<close>.
\<close>

definition connect_data :: "(string \<Rightarrow> json_root option) \<Rightarrow> read_outcome \<Rightarrow> json_root \<Rightarrow> json_root" where
  "connect_data parse rd init =
     (case rd of
        ReadThrows \<Rightarrow> init
      | ReadText s \<Rightarrow> (case parse s of None \<Rightarrow> init | Some d \<Rightarrow> d)
      | ReadPromise rejected \<Rightarrow> init)"

text \<open>\<open>connect\<close> keeps no reference to the promise of an asynchronous \<open>read\<close>: when that
  promise is rejected, the rejection is unhandled.\<close>

definition read_rejections :: "read_outcome \<Rightarrow> error list" where
  "read_rejections rd = (case rd of ReadPromise True \<Rightarrow> [ReadError] | _ \<Rightarrow> [])"

definition empty_database :: database where
  "empty_database = \<lparr>data = [], heap = (\<lambda>a. []), fresh = 0, writes = 0, unhandled = []\<rparr>"

definition connect :: "(string \<Rightarrow> json_root option) \<Rightarrow> read_outcome \<Rightarrow> json_root \<Rightarrow> database" where
  "connect parse rd init =
     load_root (connect_data parse rd init) (empty_database\<lparr>unhandled := read_rejections rd\<rparr>)"

text \<open>The options of the factory returned by \<open>connect\<close>, and the collection object it
  returns: the fields of a collection, with the address of its backing array.\<close>

record collection_options =
  co_name :: string
  co_primaryKey :: string
  co_comparator :: "item_comparator option"

record handle =
  h_comparator :: "item_comparator option"
  h_name :: string
  h_primaryKey :: string
  h_elements :: nat

text \<open>\<open>data[name]\<close>: the root object's own value, else the member of \<open>Object.prototype\<close> of
  that name, else \<open>undefined\<close>.\<close>

definition object_prototype_names :: "string list" where
  "object_prototype_names =
     [''constructor'', ''hasOwnProperty'', ''isPrototypeOf'', ''propertyIsEnumerable'',
      ''toLocaleString'', ''toString'', ''valueOf'', ''__proto__'', ''__defineGetter__'',
      ''__defineSetter__'', ''__lookupGetter__'', ''__lookupSetter__'']"

definition root_lookup :: "database \<Rightarrow> string \<Rightarrow> rootval" where
  "root_lookup db nm =
     (case map_of (data db) nm of
        Some v \<Rightarrow> v
      | None \<Rightarrow> if nm \<in> set object_prototype_names then Inherited else Prim JUndef)"

text \<open>\<open>Array.isArray\<close>.\<close>

fun is_array :: "rootval \<Rightarrow> bool" where
  "is_array (Arr a) = True"
| "is_array v = False"

text \<open>
  The constructor's sort on an array that holds \<open>null\<close>. The default comparator reads
  \<open>a[this.primaryKey]\<close> of both arguments, which throws a \<open>TypeError\<close> on \<open>null\<close>; a sort of
  two or more entries compares every entry with another one, a sort of fewer compares
  nothing.
\<close>

definition sort_throws :: "collection_options \<Rightarrow> item list \<Rightarrow> bool" where
  "sort_throws opts xs = (co_comparator opts = None \<and> 2 \<le> length xs \<and> Null \<in> set xs)"

text \<open>
  \<open>new Collection(...)\<close> on the array at an address: the array after the constructor, or
  the error it throws. On an array of records this is \<open>Collection_new\<close>. (Where the sort
  throws, the order it has left the array in is not modelled.)
\<close>

definition construct :: "collection_options \<Rightarrow> item list \<Rightarrow> error + item list" where
  "construct opts xs =
     (if sort_throws opts xs then Inl TypeError
      else
        (case records xs of
           Some els \<Rightarrow>
             Inr (map Rec (elements (Collection_new
                    \<lparr>opt_name = co_name opts,
                     opt_comparator = map_option on_records (co_comparator opts),
                     opt_elements = els, opt_primaryKey = co_primaryKey opts\<rparr>)))
         | None \<Rightarrow>
             (case co_comparator opts of
                None \<Rightarrow> Inr xs
              | Some f \<Rightarrow> Inr (js_sort f xs))))"

text \<open>\<open>data[name] || (data[name] = [])\<close>, then the check and the constructor, which sorts
  the array in place.\<close>

definition db_collection :: "database \<Rightarrow> collection_options \<Rightarrow> (error + handle) \<times> database" where
  "db_collection db opts =
     (let nm = co_name opts;
          cur = root_lookup db nm;
          (els, db1) =
            (if truthy cur then (cur, db)
             else (Arr (fresh db),
                   db\<lparr>data := set_field (data db) nm (Arr (fresh db)),
                      heap := (heap db)(fresh db := []), fresh := Suc (fresh db)\<rparr>))
      in case els of
           Arr a \<Rightarrow>
             (case construct opts (heap db1 a) of
                Inl e \<Rightarrow> (Inl e, db1)
              | Inr ys \<Rightarrow>
                  (Inr \<lparr>h_comparator = co_comparator opts, h_name = nm,
                        h_primaryKey = co_primaryKey opts, h_elements = a\<rparr>,
                   db1\<lparr>heap := (heap db1)(a := ys)\<rparr>))
         | _ \<Rightarrow> (Inl TypeError, db1))"

text \<open>
  A collection object seen through the store, on an array of records; the methods of a
  collection on an array that holds \<open>null\<close> are not modelled, and \<open>view\<close> is \<open>None\<close> there.
  After a method has run the array is updated in place, and each save stores the array
  under the collection's name and writes the file. The delay before a write and the order
  in which pending writes complete are not modelled.
\<close>

definition view :: "database \<Rightarrow> handle \<Rightarrow> collection option" where
  "view db h =
     (case records (heap db (h_elements h)) of
        None \<Rightarrow> None
      | Some els \<Rightarrow>
          Some \<lparr>comparator = map_option on_records (h_comparator h), name = h_name h,
                primaryKey = Some (h_primaryKey h), elements = els, saves = 0\<rparr>)"

definition commit :: "database \<Rightarrow> handle \<Rightarrow> collection \<Rightarrow> database" where
  "commit db h c =
     (let db1 = db\<lparr>heap := (heap db)(h_elements h := map Rec (elements c))\<rparr>
      in if saves c = 0 then db1
         else db1\<lparr>data := set_field (data db1) (h_name h) (Arr (h_elements h)),
                  writes := writes db1 + saves c\<rparr>)"

definition db_insert ::
  "database \<Rightarrow> handle \<Rightarrow> element \<Rightarrow> (bool promise \<times> database) option" where
  "db_insert db h el =
     (case view db h of
        None \<Rightarrow> None
      | Some c \<Rightarrow> (case Collection_insert c el of (r, c') \<Rightarrow> Some (r, commit db h c')))"

definition db_find :: "database \<Rightarrow> handle \<Rightarrow> element \<Rightarrow> (error + element option) option" where
  "db_find db h el = map_option (\<lambda>c. Collection_find c el) (view db h)"

section \<open>Orderings and sequences of operations\<close>

text \<open>
  What the data model asks of a collection's ordering, on the elements whose key satisfies
  \<open>K\<close>: two elements compare equal exactly when their keys are equal, swapping the
  arguments swaps the sign, and the ordering is transitive.
\<close>

definition ordering_ok :: "comparator \<Rightarrow> string \<Rightarrow> (jsval \<Rightarrow> bool) \<Rightarrow> bool" where
  "ordering_ok cmp pk K =
     (\<forall>a b. K (get_field a pk) \<longrightarrow> K (get_field b pk) \<longrightarrow>
        ((cmp a b = 0) = (get_field a pk = get_field b pk)) \<and>
        ((cmp a b < 0) = (0 < cmp b a)) \<and>
        (\<forall>c. K (get_field c pk) \<longrightarrow> cmp a b \<le> 0 \<longrightarrow> cmp b c \<le> 0 \<longrightarrow> cmp a c \<le> 0))"

text \<open>A collection in order: its comparator is such an ordering on \<open>K\<close>, its array is
  sorted by it, and the keys of its elements satisfy \<open>K\<close>.\<close>

abbreviation pkey :: "collection \<Rightarrow> string" where
  "pkey c \<equiv> pk_name (primaryKey c)"

definition coll_inv :: "(jsval \<Rightarrow> bool) \<Rightarrow> collection \<Rightarrow> bool" where
  "coll_inv K c =
     (ordering_ok (the_comparator c) (pkey c) K
      \<and> sorted_by (the_comparator c) (elements c)
      \<and> (\<forall>x\<in>set (elements c). K (get_field x (pkey c))))"

text \<open>An object has each property once.\<close>

definition is_object :: "element \<Rightarrow> bool" where
  "is_object el = distinct (map fst el)"

text \<open>The mutating methods as a sequence of calls on one collection object.\<close>

datatype op = Insert element | Update element | Remove element
  | RemoveAll "(element \<Rightarrow> bool) option"

fun apply_op :: "collection \<Rightarrow> op \<Rightarrow> collection" where
  "apply_op c (Insert el) = snd (Collection_insert c el)"
| "apply_op c (Update el) = snd (Collection_update c el)"
| "apply_op c (Remove el) = snd (Collection_remove c el)"
| "apply_op c (RemoveAll cond) = snd (Collection_removeAll c cond)"

definition run_ops :: "collection \<Rightarrow> op list \<Rightarrow> collection" where
  "run_ops c ops = foldl apply_op c ops"

text \<open>The arguments a sequence of calls may pass: where an argument has the key field,
  its key satisfies \<open>K\<close>, and the argument of an update is an object.\<close>

fun op_ok :: "(jsval \<Rightarrow> bool) \<Rightarrow> string \<Rightarrow> op \<Rightarrow> bool" where
  "op_ok K pk (Insert el) = (has_field el pk \<longrightarrow> K (get_field el pk))"
| "op_ok K pk (Update el) = ((has_field el pk \<longrightarrow> K (get_field el pk)) \<and> is_object el)"
| "op_ok K pk (Remove el) = (has_field el pk \<longrightarrow> K (get_field el pk))"
| "op_ok K pk (RemoveAll cond) = True"

text \<open>Key values of one kind, and what the default comparator needs of \<open><\<close> on the
  keys in use: a strict total order.\<close>

fun is_num :: "jsval \<Rightarrow> bool" where
  "is_num (JNum n) = True"
| "is_num v = False"

fun is_str :: "jsval \<Rightarrow> bool" where
  "is_str (JStr s) = True"
| "is_str v = False"

definition lt_total_on :: "(jsval \<Rightarrow> bool) \<Rightarrow> bool" where
  "lt_total_on K =
     (\<forall>a b. K a \<longrightarrow> K b \<longrightarrow>
        \<not> js_lt a a \<and> (a \<noteq> b \<longrightarrow> js_lt a b \<or> js_lt b a) \<and>
        (\<forall>c. K c \<longrightarrow> js_lt a b \<longrightarrow> js_lt b c \<longrightarrow> js_lt a c))"

text \<open>
  A comparator that orders elements by the sum of two numeric fields, in the source
  language \<open>(a, b) => ((a.id ?? 0) + (a.bonus ?? 0)) - ((b.id ?? 0) + (b.bonus ?? 0))\<close>:
  a consistent ordering of the elements that does not agree with equality of the key.
\<close>

definition score :: "element \<Rightarrow> int" where
  "score a = (case get_field a ''id'' of JNum n \<Rightarrow> n | _ \<Rightarrow> 0)
           + (case get_field a ''bonus'' of JNum n \<Rightarrow> n | _ \<Rightarrow> 0)"

definition score_comparator :: comparator where
  "score_comparator a b = score a - score b"

text \<open>What the immediate caller of an \<open>async\<close> method observes: never an exception,
  always the promise (\<open>Inl\<close> would be an exception thrown to the caller).\<close>

definition call_async :: "'a promise \<times> collection \<Rightarrow> (error + 'a promise) \<times> collection" where
  "call_async r = (Inr (fst r), snd r)"



text \<open>Exactly one element of the array has key \<open>k\<close>, and it is \<open>x\<close>.\<close>

definition holds_once :: "string \<Rightarrow> jsval \<Rightarrow> element \<Rightarrow> element list \<Rightarrow> bool" where
  "holds_once pk k x els = (filter (\<lambda>y. get_field y pk = k) els = [x])"

text \<open>An \<open>init\<close> object with users 1 and 3, the options of a collection for it, and the
  collection object the factory returns for them.\<close>

definition users_init :: json_root where
  "users_init = [(''users'', PArr [Rec [(''id'', JNum 1)], Rec [(''id'', JNum 3)]])]"

definition users_opts :: collection_options where
  "users_opts = \<lparr>co_name = ''users'', co_primaryKey = ''id'', co_comparator = None\<rparr>"

definition users_handle :: handle where
  "users_handle = \<lparr>h_comparator = None, h_name = ''users'', h_primaryKey = ''id'',
                    h_elements = 0\<rparr>"

text \<open>
  A comparator that orders by descending \<open>id\<close>, in the source language
  \<open>(a, b) => (b?.id ?? 0) - (a?.id ?? 0)\<close>, and the options and the collection object of a
  second collection for the same name that is given it.
\<close>

definition item_id :: "item \<Rightarrow> int" where
  "item_id x = (case x of Rec el \<Rightarrow> (case get_field el ''id'' of JNum n \<Rightarrow> n | _ \<Rightarrow> 0)
                | Null \<Rightarrow> 0)"

definition descending_id :: item_comparator where
  "descending_id a b = item_id b - item_id a"

definition users_opts_desc :: collection_options where
  "users_opts_desc = \<lparr>co_name = ''users'', co_primaryKey = ''id'',
                        co_comparator = Some descending_id\<rparr>"

definition users_handle_desc :: handle where
  "users_handle_desc = \<lparr>h_comparator = Some descending_id, h_name = ''users'',
                          h_primaryKey = ''id'', h_elements = 0\<rparr>"

text \<open>The database that \<open>connect\<close> gives for that \<open>init\<close> object when the file cannot be
  read, after a first collection for \<open>users\<close> has been made, and after a second one with
  the default comparator or with the descending one.\<close>

definition users_db :: database where
  "users_db = connect (\<lambda>s. None) ReadThrows users_init"

definition users_db1 :: database where
  "users_db1 = snd (db_collection users_db users_opts)"

definition users_db2 :: database where
  "users_db2 = snd (db_collection users_db1 users_opts)"

definition users_db2_desc :: database where
  "users_db2_desc = snd (db_collection users_db1 users_opts_desc)"

section \<open>The ordering\<close>

lemma ok_eq: "ordering_ok cmp pk K \<Longrightarrow> K (get_field a pk) \<Longrightarrow> K (get_field b pk) \<Longrightarrow>
    (cmp a b = 0) = (get_field a pk = get_field b pk)"
  unfolding ordering_ok_def by blast

lemma ok_flip: "ordering_ok cmp pk K \<Longrightarrow> K (get_field a pk) \<Longrightarrow> K (get_field b pk) \<Longrightarrow>
    (cmp a b < 0) = (0 < cmp b a)"
  unfolding ordering_ok_def by blast

lemma ok_trans: "ordering_ok cmp pk K \<Longrightarrow> K (get_field a pk) \<Longrightarrow> K (get_field b pk) \<Longrightarrow>
    K (get_field c pk) \<Longrightarrow> cmp a b \<le> 0 \<Longrightarrow> cmp b c \<le> 0 \<Longrightarrow> cmp a c \<le> 0"
  unfolding ordering_ok_def by blast

lemma ok_le_flip:
  assumes "ordering_ok cmp pk K" "K (get_field a pk)" "K (get_field b pk)"
  shows "(cmp a b \<le> 0) = (0 \<le> cmp b a)"
proof -
  have "(cmp a b = 0) = (cmp b a = 0)"
    using ok_eq[OF assms] ok_eq[OF assms(1) assms(3) assms(2)] by auto
  moreover have "(cmp a b < 0) = (0 < cmp b a)" by (rule ok_flip[OF assms])
  ultimately show ?thesis by linarith
qed

lemma ok_lt_le_trans:
  assumes ok: "ordering_ok cmp pk K" and K: "K (get_field a pk)" "K (get_field b pk)" "K (get_field c pk)"
    and ab: "cmp a b < 0" and bc: "cmp b c \<le> 0"
  shows "cmp a c < 0"
proof (rule ccontr)
  assume "\<not> cmp a c < 0"
  then have "cmp c a \<le> 0"
    using ok_le_flip[OF ok K(3) K(1)] by linarith
  with bc have "cmp b a \<le> 0" using ok_trans[OF ok K(2) K(3) K(1)] by blast
  moreover have "0 < cmp b a" using ab ok_flip[OF ok K(1) K(2)] by simp
  ultimately show False by simp
qed

lemma ok_le_lt_trans:
  assumes ok: "ordering_ok cmp pk K" and K: "K (get_field a pk)" "K (get_field b pk)" "K (get_field c pk)"
    and ab: "cmp a b \<le> 0" and bc: "cmp b c < 0"
  shows "cmp a c < 0"
proof (rule ccontr)
  assume "\<not> cmp a c < 0"
  then have "cmp c a \<le> 0"
    using ok_le_flip[OF ok K(3) K(1)] by linarith
  with ab have "cmp c b \<le> 0" using ok_trans[OF ok K(3) K(1) K(2)] by blast
  moreover have "0 < cmp c b" using bc ok_flip[OF ok K(2) K(3)] by simp
  ultimately show False by simp
qed

text \<open>A hit of the binary search is an index of the array whose element compares equal;
  this needs no order on the array.\<close>

lemma searchIndex_loop_found:
  "searchIndex_loop cmp els el l r = (i, True) \<Longrightarrow> 0 \<le> l \<Longrightarrow> r < int (length els) \<Longrightarrow>
     i < length els \<and> cmp el (els ! i) = 0"
proof (induction cmp els el l r rule: searchIndex_loop.induct)
  case (1 cmp els el left right)
  show ?case
  proof (cases "left \<le> right")
    case False
    with "1.prems" show ?thesis by (simp add: searchIndex_loop.simps[of cmp els el left right])
  next
    case True
    define mid where "mid = (left + right) div 2"
    have mid: "left \<le> mid" "mid \<le> right" using True by (auto simp: mid_def)
    consider (lt) "cmp el (els ! nat mid) < 0" | (gt) "cmp el (els ! nat mid) > 0"
      | (eq) "cmp el (els ! nat mid) = 0" by linarith
    then show ?thesis
    proof cases
      case lt
      then have "searchIndex_loop cmp els el left (mid - 1) = (i, True)"
        using "1.prems"(1) True by (simp add: searchIndex_loop.simps[of cmp els el left right] mid_def Let_def)
      then show ?thesis
        using "1.IH"(1)[OF True mid_def[symmetric, THEN sym] refl] lt "1.prems" mid
        by (auto simp: mid_def)
    next
      case gt
      then have "searchIndex_loop cmp els el (mid + 1) right = (i, True)"
        using "1.prems"(1) True by (simp add: searchIndex_loop.simps[of cmp els el left right] mid_def Let_def)
      then show ?thesis
        using "1.IH"(2)[OF True mid_def[symmetric, THEN sym] refl] gt "1.prems" mid
        by (auto simp: mid_def)
    next
      case eq
      then have "i = nat mid"
        using "1.prems"(1) True by (simp add: searchIndex_loop.simps[of cmp els el left right] mid_def Let_def)
      then show ?thesis using eq mid "1.prems" by auto
    qed
  qed
qed

text \<open>A miss on a sorted array is the insertion point: everything before it is smaller
  than the argument, everything from it on is greater.\<close>

lemma searchIndex_loop_absent:
  assumes ok: "ordering_ok cmp pk K"
    and srt: "sorted_by cmp els"
    and Ks: "\<forall>x\<in>set els. K (get_field x pk)"
    and Kel: "K (get_field el pk)"
  shows "searchIndex_loop cmp els el l r = (i, False) \<Longrightarrow> 0 \<le> l \<Longrightarrow> r < int (length els) \<Longrightarrow>
     l \<le> r + 1 \<Longrightarrow>
     (\<forall>j. int j < l \<longrightarrow> j < length els \<longrightarrow> 0 < cmp el (els ! j)) \<Longrightarrow>
     (\<forall>j. r < int j \<longrightarrow> j < length els \<longrightarrow> cmp el (els ! j) < 0) \<Longrightarrow>
     i \<le> length els \<and> (\<forall>j<i. 0 < cmp el (els ! j))
       \<and> (\<forall>j. i \<le> j \<longrightarrow> j < length els \<longrightarrow> cmp el (els ! j) < 0)"
  using ok srt Ks Kel
proof (induction cmp els el l r rule: searchIndex_loop.induct)
  case (1 cmp els el left right)
  note ok = \<open>ordering_ok cmp pk K\<close> and Ks = \<open>\<forall>x\<in>set els. K (get_field x pk)\<close>
    and Kel = \<open>K (get_field el pk)\<close>
  have nthK: "\<And>j. j < length els \<Longrightarrow> K (get_field (els ! j) pk)" using Ks by simp
  have srt: "\<And>a b. a < b \<Longrightarrow> b < length els \<Longrightarrow> cmp (els ! a) (els ! b) \<le> 0"
    using \<open>sorted_by cmp els\<close> by (simp add: sorted_by_def sorted_wrt_iff_nth_less)
  show ?case
  proof (cases "left \<le> right")
    case False
    then have i: "i = nat left"
      using "1.prems"(1) by (simp add: searchIndex_loop.simps[of cmp els el left right])
    have "left = right + 1" using False "1.prems"(4) by simp
    then show ?thesis using i "1.prems" by auto
  next
    case True
    define mid where "mid = (left + right) div 2"
    have mid: "left \<le> mid" "mid \<le> right" using True by (auto simp: mid_def)
    have midlen: "nat mid < length els" using mid "1.prems" by auto
    consider (lt) "cmp el (els ! nat mid) < 0" | (gt) "cmp el (els ! nat mid) > 0"
      | (eq) "cmp el (els ! nat mid) = 0" by linarith
    then show ?thesis
    proof cases
      case lt
      then have rec: "searchIndex_loop cmp els el left (mid - 1) = (i, False)"
        using "1.prems"(1) True by (simp add: searchIndex_loop.simps[of cmp els el left right] mid_def Let_def)
      have up: "\<forall>j. mid - 1 < int j \<longrightarrow> j < length els \<longrightarrow> cmp el (els ! j) < 0"
      proof (intro allI impI)
        fix j assume j: "mid - 1 < int j" "j < length els"
        show "cmp el (els ! j) < 0"
        proof (cases "j = nat mid")
          case True then show ?thesis using lt by simp
        next
          case False
          then have "nat mid < j" using j mid "1.prems"(2) by auto
          then have "cmp (els ! nat mid) (els ! j) \<le> 0" using srt j by simp
          then show ?thesis
            using ok_lt_le_trans[OF ok Kel nthK[OF midlen] nthK[OF j(2)] lt] by simp
        qed
      qed
      show ?thesis
        using "1.IH"(1)[OF True mid_def[symmetric, THEN sym] refl lt rec] "1.prems" mid up
        by auto
    next
      case gt
      then have rec: "searchIndex_loop cmp els el (mid + 1) right = (i, False)"
        using "1.prems"(1) True by (simp add: searchIndex_loop.simps[of cmp els el left right] mid_def Let_def)
      have flip: "cmp (els ! nat mid) el < 0"
        using gt ok_flip[OF ok nthK[OF midlen] Kel] by simp
      have lo: "\<forall>j. int j < mid + 1 \<longrightarrow> j < length els \<longrightarrow> 0 < cmp el (els ! j)"
      proof (intro allI impI)
        fix j assume j: "int j < mid + 1" "j < length els"
        show "0 < cmp el (els ! j)"
        proof (cases "j = nat mid")
          case True then show ?thesis using gt by simp
        next
          case False
          then have "j < nat mid" using j mid "1.prems"(2) by auto
          then have "cmp (els ! j) (els ! nat mid) \<le> 0" using srt midlen by simp
          then have "cmp (els ! j) el < 0"
            using ok_le_lt_trans[OF ok nthK[OF j(2)] nthK[OF midlen] Kel _ flip] by simp
          then show ?thesis using ok_flip[OF ok nthK[OF j(2)] Kel] by simp
        qed
      qed
      have ng: "\<not> cmp el (els ! nat mid) < 0" using gt by simp
      show ?thesis
        using "1.IH"(2)[OF True mid_def[symmetric, THEN sym] refl ng gt rec] "1.prems" mid lo
        by auto
    next
      case eq
      then have False
        using "1.prems"(1) True by (simp add: searchIndex_loop.simps[of cmp els el left right] mid_def Let_def)
      then show ?thesis ..
    qed
  qed
qed

section \<open>Sortedness of the backing array\<close>

lemma js_sort_sorted_id: "sorted_by cmp xs \<Longrightarrow> js_sort cmp xs = xs"
proof (induction xs)
  case Nil
  then show ?case by (simp add: js_sort_def)
next
  case (Cons x xs)
  then have "js_sort cmp xs = xs" by (simp add: sorted_by_def)
  then have "js_sort cmp (x # xs) = sort_insert cmp x xs" by (simp add: js_sort_def)
  also have "\<dots> = x # xs" using Cons.prems by (cases xs) (auto simp: sorted_by_def)
  finally show ?case .
qed

lemma searchIndex_found:
  "searchIndex c el = Inr (i, True) \<Longrightarrow>
     i < length (elements c) \<and> the_comparator c el (elements c ! i) = 0"
  using searchIndex_loop_found[of "the_comparator c" "elements c" el 0 "int (length (elements c)) - 1" i]
  by (auto simp: searchIndex_def split: if_splits)

lemma searchIndex_absent:
  assumes "coll_inv K c" "K (get_field el (pkey c))" "searchIndex c el = Inr (i, False)"
  shows "i \<le> length (elements c) \<and> (\<forall>j<i. 0 < the_comparator c el (elements c ! j))
       \<and> (\<forall>j. i \<le> j \<longrightarrow> j < length (elements c) \<longrightarrow> the_comparator c el (elements c ! j) < 0)"
proof -
  have loop: "searchIndex_loop (the_comparator c) (elements c) el 0 (int (length (elements c)) - 1) = (i, False)"
    using assms(3) by (auto simp: searchIndex_def split: if_splits)
  show ?thesis
    using assms(1,2)
    by (intro searchIndex_loop_absent[OF _ _ _ _ loop, of "pkey c" K]) (auto simp: coll_inv_def)
qed

lemma sorted_by_insert_at:
  assumes ok: "ordering_ok cmp pk K" and srt: "sorted_by cmp els"
    and Ks: "\<forall>x\<in>set els. K (get_field x pk)" and Kel: "K (get_field el pk)"
    and i: "i \<le> length els"
    and lo: "\<forall>j<i. 0 < cmp el (els ! j)"
    and hi: "\<forall>j. i \<le> j \<longrightarrow> j < length els \<longrightarrow> cmp el (els ! j) < 0"
  shows "sorted_by cmp (take i els @ [el] @ drop i els)"
proof -
  have t: "sorted_wrt (\<lambda>a b. cmp a b \<le> 0) (take i els)"
    and d: "sorted_wrt (\<lambda>a b. cmp a b \<le> 0) (drop i els)"
    and td: "\<forall>x\<in>set (take i els). \<forall>y\<in>set (drop i els). cmp x y \<le> 0"
    using srt sorted_wrt_append[of "\<lambda>a b. cmp a b \<le> 0" "take i els" "drop i els"]
    by (simp_all add: sorted_by_def)
  have a: "\<forall>x\<in>set (take i els). cmp x el \<le> 0"
  proof
    fix x assume x: "x \<in> set (take i els)"
    then obtain j where j: "j < i" "j < length els" "x = els ! j"
      using i by (auto simp: in_set_conv_nth)
    then have "0 < cmp el x" using lo by simp
    moreover have "K (get_field x pk)" using Ks j by simp
    ultimately show "cmp x el \<le> 0" using ok_flip[OF ok _ Kel, of x] by simp
  qed
  have b: "\<forall>y\<in>set (drop i els). cmp el y \<le> 0"
  proof
    fix y assume "y \<in> set (drop i els)"
    then obtain j where j: "j < length els - i" "y = els ! (i + j)"
      using i by (auto simp: in_set_conv_nth)
    then have "cmp el y < 0" using hi by simp
    then show "cmp el y \<le> 0" by simp
  qed
  show ?thesis
    unfolding sorted_by_def using t d td a b by (simp add: sorted_wrt_append)
qed

lemma sorted_by_remove_at: "sorted_by cmp els \<Longrightarrow> sorted_by cmp (take i els @ drop (Suc i) els)"
proof -
  assume srt: "sorted_by cmp els"
  have "sorted_wrt (\<lambda>a b. cmp a b \<le> 0) (take i els @ drop i els)"
    using srt by (simp add: sorted_by_def)
  then have t: "sorted_wrt (\<lambda>a b. cmp a b \<le> 0) (take i els)"
    and td: "\<forall>x\<in>set (take i els). \<forall>y\<in>set (drop i els). cmp x y \<le> 0"
    unfolding sorted_wrt_append by simp_all
  have d: "sorted_wrt (\<lambda>a b. cmp a b \<le> 0) (drop (Suc i) els)"
    using srt by (simp add: sorted_by_def sorted_wrt_drop)
  have "set (drop (Suc i) els) \<subseteq> set (drop i els)"
    by (simp add: set_drop_subset_set_drop)
  then show ?thesis unfolding sorted_by_def sorted_wrt_append using t d td by blast
qed

lemma ok_cong_left:
  assumes ok: "ordering_ok cmp pk K" and K: "K (get_field a pk)" "K (get_field a' pk)" "K (get_field b pk)"
    and eq: "get_field a pk = get_field a' pk" and le: "cmp a b \<le> 0"
  shows "cmp a' b \<le> 0"
proof -
  have "cmp a' a = 0" using ok_eq[OF ok K(2) K(1)] eq by simp
  then show ?thesis using ok_trans[OF ok K(2) K(1) K(3)] le by simp
qed

lemma ok_cong_right:
  assumes ok: "ordering_ok cmp pk K" and K: "K (get_field a pk)" "K (get_field b pk)" "K (get_field b' pk)"
    and eq: "get_field b pk = get_field b' pk" and le: "cmp a b \<le> 0"
  shows "cmp a b' \<le> 0"
proof -
  have "cmp b b' = 0" using ok_eq[OF ok K(2) K(3)] eq by simp
  then show ?thesis using ok_trans[OF ok K(1) K(2) K(3)] le by simp
qed

lemma sorted_by_update_at:
  assumes ok: "ordering_ok cmp pk K" and srt: "sorted_by cmp els"
    and Ks: "\<forall>x\<in>set els. K (get_field x pk)"
    and i: "i < length els" and eq: "get_field m pk = get_field (els ! i) pk"
  shows "sorted_by cmp (els[i := m])"
proof -
  have nthK: "\<And>j. j < length els \<Longrightarrow> K (get_field (els ! j) pk)" using Ks by simp
  have Km: "K (get_field m pk)" using eq nthK[OF i] by simp
  have srt': "\<And>a b. a < b \<Longrightarrow> b < length els \<Longrightarrow> cmp (els ! a) (els ! b) \<le> 0"
    using srt by (simp add: sorted_by_def sorted_wrt_iff_nth_less)
  have "cmp (els[i := m] ! a) (els[i := m] ! b) \<le> 0" if ab: "a < b" "b < length els" for a b
  proof -
    have a: "a < length els" using ab by simp
    consider "a = i" | "b = i" | "a \<noteq> i" "b \<noteq> i" by blast
    then show ?thesis
    proof cases
      case 1
      then have "b \<noteq> i" using ab by simp
      then show ?thesis
        using 1 i ab ok_cong_left[OF ok nthK[OF i] Km nthK[OF ab(2)] eq[symmetric] srt'[OF _ ab(2), of i]]
        by simp
    next
      case 2
      then have "a \<noteq> i" using ab by simp
      then show ?thesis
        using 2 i ab ok_cong_right[OF ok nthK[OF a] nthK[OF i] Km eq[symmetric] srt'[OF _ i, of a]]
        by simp
    next
      case 3
      then show ?thesis using srt'[OF ab] by simp
    qed
  qed
  then show ?thesis by (simp add: sorted_by_def sorted_wrt_iff_nth_less)
qed

lemma map_of_set_field: "map_of (set_field t k v) = (map_of t)(k \<mapsto> v)"
  by (induction t k v rule: set_field.induct) auto

lemma map_of_assign:
  "distinct (map fst src) \<Longrightarrow>
     map_of (assign t src) k = (case map_of src k of Some v \<Rightarrow> Some v | None \<Rightarrow> map_of t k)"
proof (induction t src rule: assign.induct)
  case (1 target)
  then show ?case by simp
next
  case (2 target k' v src)
  then have d: "distinct (map fst src)" and n: "map_of src k' = None"
    by (simp_all add: map_of_eq_None_iff)
  show ?case
    using "2.IH"[OF d] n by (simp add: map_of_set_field split: option.splits)
qed

lemma get_field_assign:
  "is_object el \<Longrightarrow> has_field el k \<Longrightarrow> get_field (assign t el) k = get_field el k"
  by (auto simp: is_object_def has_field_def get_field_def map_of_assign split: option.splits)

section \<open>The operations keep the collection in order\<close>

lemma the_comparator_upd [simp]:
  "the_comparator (c\<lparr>elements := e\<rparr>) = the_comparator c"
  "the_comparator (c\<lparr>saves := s\<rparr>) = the_comparator c"
  by (cases "comparator c"; simp add: the_comparator_def)+

lemma insert_frame:
  "the_comparator (snd (Collection_insert c el)) = the_comparator c
   \<and> primaryKey (snd (Collection_insert c el)) = primaryKey c"
  by (simp add: Collection_insert_def startSaving_def split: sum.splits prod.splits)

lemma update_frame:
  "the_comparator (snd (Collection_update c el)) = the_comparator c
   \<and> primaryKey (snd (Collection_update c el)) = primaryKey c"
  by (simp add: Collection_update_def startSaving_def split: sum.splits prod.splits)

lemma remove_frame:
  "the_comparator (snd (Collection_remove c el)) = the_comparator c
   \<and> primaryKey (snd (Collection_remove c el)) = primaryKey c"
  by (simp add: Collection_remove_def startSaving_def split: sum.splits prod.splits)

lemma searchIndex_has_field: "searchIndex c el = Inr r \<Longrightarrow> has_field el (pkey c)"
  by (auto simp: searchIndex_def split: if_splits)

lemma inv_insert:
  assumes inv: "coll_inv K c" and K: "has_field el (pkey c) \<longrightarrow> K (get_field el (pkey c))"
  shows "coll_inv K (snd (Collection_insert c el))"
proof (cases "searchIndex c el")
  case (Inl e)
  then show ?thesis using inv by (simp add: Collection_insert_def)
next
  case (Inr r)
  obtain i f where r: "r = (i, f)" by (cases r)
  have Kel: "K (get_field el (pkey c))" using K searchIndex_has_field[OF Inr] by simp
  show ?thesis
  proof (cases f)
    case True
    then show ?thesis using inv Inr r by (simp add: Collection_insert_def)
  next
    case False
    have si: "searchIndex c el = Inr (i, False)" using Inr r False by simp
    note ab = searchIndex_absent[OF inv Kel si]
    have srt: "sorted_by (the_comparator c) (take i (elements c) @ [el] @ drop i (elements c))"
      using inv ab Kel
      by (intro sorted_by_insert_at[where pk="pkey c" and K=K]) (auto simp: coll_inv_def)
    have "\<forall>x\<in>set (take i (elements c) @ [el] @ drop i (elements c)). K (get_field x (pkey c))"
      using inv Kel by (auto simp: coll_inv_def dest: in_set_takeD in_set_dropD)
    then show ?thesis
      using inv srt Inr r False
      by (simp add: Collection_insert_def coll_inv_def startSaving_def)
  qed
qed

lemma inv_update:
  assumes inv: "coll_inv K c" and K: "has_field el (pkey c) \<longrightarrow> K (get_field el (pkey c))"
    and obj: "is_object el"
  shows "coll_inv K (snd (Collection_update c el))"
proof (cases "searchIndex c el")
  case (Inl e)
  then show ?thesis using inv by (simp add: Collection_update_def)
next
  case (Inr r)
  obtain i f where r: "r = (i, f)" by (cases r)
  have hf: "has_field el (pkey c)" by (rule searchIndex_has_field[OF Inr])
  have Kel: "K (get_field el (pkey c))" using K hf by simp
  show ?thesis
  proof (cases f)
    case False
    then show ?thesis using inv Inr r by (simp add: Collection_update_def)
  next
    case True
    have si: "searchIndex c el = Inr (i, True)" using Inr r True by simp
    note fd = searchIndex_found[OF si]
    have Ki: "K (get_field (elements c ! i) (pkey c))" using inv fd by (simp add: coll_inv_def)
    have keq: "get_field el (pkey c) = get_field (elements c ! i) (pkey c)"
      using ok_eq[OF _ Kel Ki, of "the_comparator c"] inv fd by (simp add: coll_inv_def)
    let ?m = "assign (elements c ! i) el"
    have km: "get_field ?m (pkey c) = get_field (elements c ! i) (pkey c)"
      using get_field_assign[OF obj hf] keq by simp
    have srt: "sorted_by (the_comparator c) ((elements c)[i := ?m])"
      using inv fd km
      by (intro sorted_by_update_at[where pk="pkey c" and K=K]) (auto simp: coll_inv_def)
    have "\<forall>x\<in>set ((elements c)[i := ?m]). K (get_field x (pkey c))"
    proof
      fix x assume "x \<in> set ((elements c)[i := ?m])"
      then have "x = ?m \<or> x \<in> set (elements c)"
        using set_update_subset_insert[of "elements c" i ?m] by auto
      then show "K (get_field x (pkey c))" using km Ki inv by (auto simp: coll_inv_def)
    qed
    then show ?thesis
      using inv srt Inr r True hf
      by (simp add: Collection_update_def coll_inv_def startSaving_def)
  qed
qed

lemma inv_remove:
  assumes inv: "coll_inv K c"
  shows "coll_inv K (snd (Collection_remove c el))"
proof (cases "searchIndex c el")
  case (Inl e)
  then show ?thesis using inv by (simp add: Collection_remove_def)
next
  case (Inr r)
  obtain i f where r: "r = (i, f)" by (cases r)
  show ?thesis
  proof (cases f)
    case False
    then show ?thesis using inv Inr r by (simp add: Collection_remove_def)
  next
    case True
    have srt: "sorted_by (the_comparator c) (take i (elements c) @ drop (Suc i) (elements c))"
      using inv by (intro sorted_by_remove_at) (simp add: coll_inv_def)
    have "\<forall>x\<in>set (take i (elements c) @ drop (Suc i) (elements c)). K (get_field x (pkey c))"
      using inv by (auto simp: coll_inv_def dest: in_set_takeD in_set_dropD)
    then show ?thesis
      using inv srt Inr r True
      by (simp add: Collection_remove_def coll_inv_def startSaving_def)
  qed
qed

lemma removeAll_loop_preserves:
  "(\<And>d el. P d \<Longrightarrow> el \<in> set (elements d) \<Longrightarrow>
      (case cond of None \<Rightarrow> True | Some p \<Rightarrow> p el) \<Longrightarrow> P (snd (Collection_remove d el))) \<Longrightarrow>
   P c \<Longrightarrow> P (snd (removeAll_loop cond c i len))"
proof (induction cond c i len rule: removeAll_loop.induct)
  case (1 cond c i len)
  note step = "1.prems"(1) and Pc = "1.prems"(2)
  show ?case
  proof (cases "i < length (elements c)")
    case False
    then show ?thesis using Pc by (simp add: removeAll_loop.simps[of cond c i len])
  next
    case True
    show ?thesis
    proof (cases "case cond of None \<Rightarrow> True | Some p \<Rightarrow> p (elements c ! i)")
      case m: True
      have "P (snd (Collection_remove c (elements c ! i)))"
        by (rule step[OF Pc nth_mem[OF True] m])
      then show ?thesis
        using "1.IH"(1)[OF True refl m step] True m
        by (simp add: removeAll_loop.simps[of cond c i len] Let_def)
    next
      case m: False
      then show ?thesis
        using "1.IH"(2)[OF True refl m step Pc] True
        by (simp add: removeAll_loop.simps[of cond c i len] Let_def)
    qed
  qed
qed

lemma inv_removeAll: "coll_inv K c \<Longrightarrow> coll_inv K (snd (Collection_removeAll c cond))"
  unfolding Collection_removeAll_def
  by (rule removeAll_loop_preserves[where P="coll_inv K"]) (simp_all add: inv_remove)

lemma removeAll_frame:
  "the_comparator (snd (Collection_removeAll c cond)) = the_comparator c
   \<and> primaryKey (snd (Collection_removeAll c cond)) = primaryKey c"
  unfolding Collection_removeAll_def
  by (rule removeAll_loop_preserves[where P="\<lambda>d. the_comparator d = the_comparator c \<and> primaryKey d = primaryKey c"])
     (simp_all add: remove_frame)

lemma apply_op_frame:
  "the_comparator (apply_op c x) = the_comparator c \<and> primaryKey (apply_op c x) = primaryKey c"
  by (cases x) (simp_all add: insert_frame update_frame remove_frame removeAll_frame)

lemma inv_apply_op: "coll_inv K c \<Longrightarrow> op_ok K (pkey c) x \<Longrightarrow> coll_inv K (apply_op c x)"
  by (cases x) (simp_all add: inv_insert inv_update inv_remove inv_removeAll)

lemma inv_run_ops:
  "coll_inv K c \<Longrightarrow> \<forall>x\<in>set ops. op_ok K (pkey c) x \<Longrightarrow> coll_inv K (run_ops c ops)"
  unfolding run_ops_def
proof (induction ops arbitrary: c)
  case Nil
  then show ?case by simp
next
  case (Cons x ops)
  have "coll_inv K (apply_op c x)" using Cons.prems by (simp add: inv_apply_op)
  moreover have "\<forall>y\<in>set ops. op_ok K (pkey (apply_op c x)) y"
    using Cons.prems by (simp add: apply_op_frame)
  ultimately show ?case using Cons.IH by simp
qed

section \<open>The default comparator and the constructor's sort\<close>

lemma lt_total_asym: "lt_total_on K \<Longrightarrow> K a \<Longrightarrow> K b \<Longrightarrow> js_lt a b \<Longrightarrow> \<not> js_lt b a"
  unfolding lt_total_on_def by blast

lemma default_ordering_ok:
  assumes tot: "lt_total_on K"
  shows "ordering_ok (defaultComparator (Some pk)) pk K"
  unfolding ordering_ok_def
proof (intro allI impI conjI)
  fix a b assume K: "K (get_field a pk)" "K (get_field b pk)"
  let ?ka = "get_field a pk" and ?kb = "get_field b pk"
  show "(defaultComparator (Some pk) a b = 0) = (?ka = ?kb)"
    using tot K unfolding lt_total_on_def
    by (auto simp: defaultComparator_def key_of_def pk_name_def js_gt_def)
  show "(defaultComparator (Some pk) a b < 0) = (0 < defaultComparator (Some pk) b a)"
    using lt_total_asym[OF tot K] lt_total_asym[OF tot K(2) K(1)]
    by (auto simp: defaultComparator_def key_of_def pk_name_def js_gt_def)
  fix c assume Kc: "K (get_field c pk)"
    and ab: "defaultComparator (Some pk) a b \<le> 0" and bc: "defaultComparator (Some pk) b c \<le> 0"
  let ?kc = "get_field c pk"
  have nba: "\<not> js_lt ?kb ?ka" using ab lt_total_asym[OF tot K]
    by (auto simp: defaultComparator_def key_of_def pk_name_def js_gt_def split: if_splits)
  have ncb: "\<not> js_lt ?kc ?kb" using bc lt_total_asym[OF tot K(2) Kc]
    by (auto simp: defaultComparator_def key_of_def pk_name_def js_gt_def split: if_splits)
  have "\<not> js_lt ?kc ?ka"
  proof
    assume ca: "js_lt ?kc ?ka"
    have "?ka = ?kb \<or> js_lt ?ka ?kb" using nba tot K unfolding lt_total_on_def by blast
    then have "js_lt ?kc ?kb"
    proof
      assume "?ka = ?kb" then show ?thesis using ca by simp
    next
      assume "js_lt ?ka ?kb"
      then show ?thesis using ca tot K Kc unfolding lt_total_on_def by blast
    qed
    then show False using ncb by simp
  qed
  then show "defaultComparator (Some pk) a c \<le> 0"
    by (auto simp: defaultComparator_def key_of_def pk_name_def js_gt_def)
qed

lemma lt_total_on_num: "lt_total_on is_num"
  unfolding lt_total_on_def
proof (intro allI impI)
  fix a b assume "is_num a" "is_num b"
  then obtain m n where ab: "a = JNum m" "b = JNum n" by (cases a; cases b; simp)
  show "\<not> js_lt a a \<and> (a \<noteq> b \<longrightarrow> js_lt a b \<or> js_lt b a) \<and>
         (\<forall>c. is_num c \<longrightarrow> js_lt a b \<longrightarrow> js_lt b c \<longrightarrow> js_lt a c)"
  proof (intro conjI allI impI)
    show "\<not> js_lt a a" using ab by simp
    show "js_lt a b \<or> js_lt b a" if "a \<noteq> b" using that ab by auto
    fix c assume "is_num c" "js_lt a b" "js_lt b c"
    then show "js_lt a c" using ab by (cases c) auto
  qed
qed

lemma str_lt_irrefl: "\<not> str_lt s s"
  by (induction s) auto

lemma str_lt_connex: "s \<noteq> t \<Longrightarrow> str_lt s t \<or> str_lt t s"
proof (induction s t rule: str_lt.induct)
  case (4 x xs y ys)
  have "(of_char x :: nat) = of_char y \<Longrightarrow> x = y" by (metis char_of_char)
  then show ?case using 4 by (cases "(of_char x :: nat) < of_char y"; cases "(of_char y :: nat) < of_char x") auto
qed auto

lemma str_lt_trans: "str_lt s t \<Longrightarrow> str_lt t u \<Longrightarrow> str_lt s u"
proof (induction s t arbitrary: u rule: str_lt.induct)
  case (4 x xs y ys)
  then obtain z zs where u: "u = z # zs" by (cases u) auto
  show ?case using 4 unfolding u by auto
next
  case (2 y ys)
  then show ?case by (cases u) auto
qed auto

lemma lt_total_on_str: "lt_total_on is_str"
  unfolding lt_total_on_def
proof (intro allI impI)
  fix a b assume "is_str a" "is_str b"
  then obtain s t where ab: "a = JStr s" "b = JStr t" by (cases a; cases b; simp)
  show "\<not> js_lt a a \<and> (a \<noteq> b \<longrightarrow> js_lt a b \<or> js_lt b a) \<and>
         (\<forall>c. is_str c \<longrightarrow> js_lt a b \<longrightarrow> js_lt b c \<longrightarrow> js_lt a c)"
  proof (intro conjI allI impI)
    show "\<not> js_lt a a" using ab by (simp add: str_lt_irrefl)
    show "js_lt a b \<or> js_lt b a" if "a \<noteq> b" using that ab str_lt_connex[of s t] by auto
    fix c assume "is_str c" "js_lt a b" "js_lt b c"
    then show "js_lt a c" using ab str_lt_trans[of s t] by (cases c) auto
  qed
qed

lemma set_sort_insert: "set (sort_insert cmp x ys) = insert x (set ys)"
  by (induction ys) auto

lemma sort_insert_sorted:
  assumes ok: "ordering_ok cmp pk K" and Kx: "K (get_field x pk)"
  shows "\<forall>y\<in>set ys. K (get_field y pk) \<Longrightarrow> sorted_by cmp ys \<Longrightarrow> sorted_by cmp (sort_insert cmp x ys)"
proof (induction ys)
  case Nil
  then show ?case by (simp add: sorted_by_def)
next
  case (Cons y ys)
  have Ky: "K (get_field y pk)" using Cons.prems by simp
  show ?case
  proof (cases "cmp x y \<le> 0")
    case True
    have "cmp x z \<le> 0" if "z \<in> set ys" for z
    proof -
      have "cmp y z \<le> 0" "K (get_field z pk)" using Cons.prems that by (auto simp: sorted_by_def)
      then show ?thesis using ok_trans[OF ok Kx Ky _ True] by blast
    qed
    then show ?thesis using True Cons.prems by (auto simp: sorted_by_def)
  next
    case False
    then have "cmp y x \<le> 0" using ok_flip[OF ok Ky Kx] by simp
    moreover have "sorted_by cmp (sort_insert cmp x ys)"
      using Cons by (simp add: sorted_by_def)
    ultimately show ?thesis using False Cons.prems
      by (auto simp: sorted_by_def set_sort_insert)
  qed
qed

lemma set_js_sort: "set (js_sort cmp xs) = set xs"
  by (induction xs) (auto simp: js_sort_def set_sort_insert)

lemma js_sort_sorted:
  assumes ok: "ordering_ok cmp pk K"
  shows "\<forall>x\<in>set xs. K (get_field x pk) \<Longrightarrow> sorted_by cmp (js_sort cmp xs)"
proof (induction xs)
  case Nil
  then show ?case by (simp add: js_sort_def sorted_by_def)
next
  case (Cons x xs)
  have "sorted_by cmp (sort_insert cmp x (js_sort cmp xs))"
    using Cons by (intro sort_insert_sorted[OF ok]) (simp_all add: set_js_sort)
  then show ?case by (simp add: js_sort_def)
qed

lemma constructor_with_comparator:
  assumes "ordering_ok f (opt_primaryKey opts) K" "opt_comparator opts = Some f"
    and "\<forall>x\<in>set (opt_elements opts). K (get_field x (opt_primaryKey opts))"
  shows "coll_inv K (Collection_new opts)"
  using assms js_sort_sorted[OF assms(1), of "opt_elements opts"]
  by (simp add: Collection_new_def coll_inv_def the_comparator_def pk_name_def set_js_sort)

lemma run_ops_frame:
  "the_comparator (run_ops c ops) = the_comparator c \<and> primaryKey (run_ops c ops) = primaryKey c"
  unfolding run_ops_def by (induction ops arbitrary: c) (simp_all add: apply_op_frame)

section \<open>Lookup by key\<close>

lemma searchIndex_Inr:
  "has_field el (pkey c) \<Longrightarrow> \<exists>i f. searchIndex c el = Inr (i, f)"
  by (simp add: searchIndex_def)

lemma searchIndex_hit_when_present:
  assumes inv: "coll_inv K c" and hf: "has_field el (pkey c)" and Kel: "K (get_field el (pkey c))"
    and x: "x \<in> set (elements c)" "get_field x (pkey c) = get_field el (pkey c)"
  shows "\<exists>i. searchIndex c el = Inr (i, True)"
proof -
  obtain i f where si: "searchIndex c el = Inr (i, f)" using searchIndex_Inr[OF hf] by blast
  have "f"
  proof (rule ccontr)
    assume "\<not> f"
    then have si': "searchIndex c el = Inr (i, False)" using si by simp
    note ab = searchIndex_absent[OF inv Kel si']
    obtain j where j: "j < length (elements c)" "x = elements c ! j"
      using x(1) by (auto simp: in_set_conv_nth)
    have "the_comparator c el x \<noteq> 0"
    proof (cases "j < i")
      case True
      then have "0 < the_comparator c el (elements c ! j)" using ab by blast
      then show ?thesis using j by simp
    next
      case False
      then have "the_comparator c el (elements c ! j) < 0" using ab j by simp
      then show ?thesis using j by simp
    qed
    moreover have Kx: "K (get_field x (pkey c))" using inv x(1) by (simp add: coll_inv_def)
    have ok: "ordering_ok (the_comparator c) (pkey c) K" using inv by (simp add: coll_inv_def)
    have "the_comparator c el x = 0"
      using ok_eq[OF ok Kel Kx] x(2) by simp
    ultimately show False by simp
  qed
  then show ?thesis using si by auto
qed

lemma insert_rejects_present_key:
  assumes "coll_inv K c" "has_field r (pkey c)" "K (get_field r (pkey c))"
    and "x \<in> set (elements c)" "get_field x (pkey c) = get_field r (pkey c)"
  shows "Collection_insert c r = (Fulfilled False, c)"
  using searchIndex_hit_when_present[OF assms] by (auto simp: Collection_insert_def)

lemma insert_success_elements:
  assumes "Collection_insert c r = (Fulfilled True, c')"
  shows "\<exists>i. searchIndex c r = Inr (i, False)
           \<and> c' = startSaving (c\<lparr>elements := take i (elements c) @ [r] @ drop i (elements c)\<rparr>)"
  using assms by (auto simp: Collection_insert_def split: sum.splits prod.splits if_splits)

section \<open>Following one record through the operations\<close>

lemma holds_once_mem: "holds_once pk k x els \<Longrightarrow> x \<in> set els \<and> get_field x pk = k"
proof -
  assume "holds_once pk k x els"
  then have "x \<in> set (filter (\<lambda>y. get_field y pk = k) els)" by (simp add: holds_once_def)
  then show ?thesis by simp
qed

lemma holds_once_unique:
  "holds_once pk k x els \<Longrightarrow> y \<in> set els \<Longrightarrow> get_field y pk = k \<Longrightarrow> y = x"
proof -
  assume h: "holds_once pk k x els" and y: "y \<in> set els" "get_field y pk = k"
  have "y \<in> set (filter (\<lambda>y. get_field y pk = k) els)" using y by simp
  moreover have "set (filter (\<lambda>y. get_field y pk = k) els) = {x}"
    using h by (simp only: holds_once_def list.set)
  ultimately show ?thesis by blast
qed


lemma find_tracked:
  assumes inv: "coll_inv K c" and once: "holds_once (pkey c) k x (elements c)"
    and hf: "has_field p (pkey c)" and kp: "get_field p (pkey c) = k" and Kk: "K k"
  shows "Collection_find c p = Inr (Some x)"
proof -
  have Kp: "K (get_field p (pkey c))" using kp Kk by simp
  note m = holds_once_mem[OF once]
  obtain i where si: "searchIndex c p = Inr (i, True)"
    using searchIndex_hit_when_present[OF inv hf Kp, of x] m kp by auto
  note fd = searchIndex_found[OF si]
  have ok: "ordering_ok (the_comparator c) (pkey c) K" using inv by (simp add: coll_inv_def)
  have Ki: "K (get_field (elements c ! i) (pkey c))" using inv fd by (simp add: coll_inv_def)
  have "get_field (elements c ! i) (pkey c) = k"
    using ok_eq[OF ok Kp Ki] fd kp by simp
  then have "elements c ! i = x" using holds_once_unique[OF once] fd by simp
  then show ?thesis using si by (simp add: Collection_find_def)
qed








lemma holds_once_after_insert:
  assumes inv: "coll_inv K c" and Kr: "K (get_field r (pkey c))"
    and ins: "Collection_insert c r = (Fulfilled True, c1)"
  shows "holds_once (pkey c) (get_field r (pkey c)) r (elements c1)"
proof -
  obtain i where si: "searchIndex c r = Inr (i, False)"
    and e: "elements c1 = take i (elements c) @ [r] @ drop i (elements c)"
    using insert_success_elements[OF ins] by (auto simp: startSaving_def)
  have hf: "has_field r (pkey c)" by (rule searchIndex_has_field[OF si])
  have none: "get_field y (pkey c) \<noteq> get_field r (pkey c)" if "y \<in> set (elements c)" for y
  proof
    assume "get_field y (pkey c) = get_field r (pkey c)"
    then have "\<exists>j. searchIndex c r = Inr (j, True)"
      using searchIndex_hit_when_present[OF inv hf Kr that] by simp
    then show False using si by simp
  qed
  have "filter (\<lambda>y. get_field y (pkey c) = get_field r (pkey c)) (take i (elements c)) = []"
    "filter (\<lambda>y. get_field y (pkey c) = get_field r (pkey c)) (drop i (elements c)) = []"
    using none by (auto simp: filter_empty_conv dest: in_set_takeD in_set_dropD)
  then show ?thesis unfolding holds_once_def e by simp
qed

lemma coll_inv_default:
  assumes "comparator c = None" and "primaryKey c = Some pk" and "lt_total_on K"
    and "sorted_by (defaultComparator (Some pk)) (elements c)"
    and "list_all (\<lambda>x. K (get_field x pk)) (elements c)"
  shows "coll_inv K c"
  using assms default_ordering_ok[OF assms(3), of pk]
  by (simp add: coll_inv_def the_comparator_def pk_name_def list_all_iff)

section \<open>The factory and the store\<close>

lemma records_map_Rec [simp]: "records (map Rec els) = Some els"
  by (induction els) simp_all

lemma records_Some: "records xs = Some els \<Longrightarrow> xs = map Rec els"
proof (induction xs arbitrary: els rule: records.induct)
  case 1
  then show ?case by simp
next
  case (2 el xs)
  then show ?case by (auto split: option.splits)
next
  case (3 xs)
  then show ?case by simp
qed

lemma records_None: "(records xs = None) = (Null \<in> set xs)"
  by (induction xs rule: records.induct) (auto split: option.splits)

lemma construct_throws: "(construct opts xs = Inl e) = (e = TypeError \<and> sort_throws opts xs)"
  by (auto simp: construct_def split: option.splits)

lemma construct_empty: "construct opts [] = Inr []"
  by (simp add: construct_def sort_throws_def Collection_new_def js_sort_def)

lemma db_collection_falsy:
  assumes "\<not> truthy (root_lookup db (co_name opts))"
  shows "\<exists>h db'. db_collection db opts = (Inr h, db') \<and> h_elements h = fresh db
           \<and> heap db' (fresh db) = []
           \<and> map_of (data db') (co_name opts) = Some (Arr (fresh db))"
  using assms
  by (simp add: db_collection_def Let_def map_of_set_field construct_empty)

lemma db_collection_array:
  assumes "root_lookup db (co_name opts) = Arr a" and "\<not> sort_throws opts (heap db a)"
  shows "\<exists>h db' ys. db_collection db opts = (Inr h, db') \<and> h_elements h = a \<and> data db' = data db
           \<and> construct opts (heap db a) = Inr ys \<and> heap db' a = ys
           \<and> h_name h = co_name opts \<and> h_primaryKey h = co_primaryKey opts
           \<and> h_comparator h = co_comparator opts"
proof -
  obtain ys where ys: "construct opts (heap db a) = Inr ys"
    using assms(2) construct_throws[of opts "heap db a"] by (cases "construct opts (heap db a)") auto
  show ?thesis using assms(1) ys by (simp add: db_collection_def Let_def)
qed

lemma db_collection_array_throws:
  assumes "root_lookup db (co_name opts) = Arr a" and "sort_throws opts (heap db a)"
  shows "db_collection db opts = (Inl TypeError, db)"
proof -
  have "construct opts (heap db a) = Inl TypeError"
    using assms(2) by (simp add: construct_throws)
  then show ?thesis using assms(1) by (simp add: db_collection_def Let_def)
qed

lemma db_collection_not_array:
  assumes "truthy (root_lookup db (co_name opts))" and "\<not> is_array (root_lookup db (co_name opts))"
  shows "db_collection db opts = (Inl TypeError, db)"
  using assms by (cases "root_lookup db (co_name opts)") (simp_all add: db_collection_def Let_def)

lemma db_collection_error:
  "(fst (db_collection db opts) = Inl TypeError)
     = ((truthy (root_lookup db (co_name opts)) \<and> \<not> is_array (root_lookup db (co_name opts)))
        \<or> (\<exists>a. root_lookup db (co_name opts) = Arr a \<and> sort_throws opts (heap db a)))"
proof (cases "truthy (root_lookup db (co_name opts))")
  case False
  then have "\<forall>a. root_lookup db (co_name opts) \<noteq> Arr a" by auto
  then show ?thesis using db_collection_falsy[OF False] False by auto
next
  case True
  show ?thesis
  proof (cases "is_array (root_lookup db (co_name opts))")
    case False
    then show ?thesis using db_collection_not_array[OF True False] True by simp
  next
    case ia: True
    then obtain a where a: "root_lookup db (co_name opts) = Arr a"
      by (cases "root_lookup db (co_name opts)") simp_all
    show ?thesis
    proof (cases "sort_throws opts (heap db a)")
      case True
      then show ?thesis using db_collection_array_throws[OF a True] a by auto
    next
      case False
      then show ?thesis using db_collection_array[OF a False] a by auto
    qed
  qed
qed

lemma db_collection_ok:
  assumes "db_collection db opts = (Inr h, db')"
  shows "map_of (data db') (co_name opts) = Some (Arr (h_elements h))
       \<and> h_name h = co_name opts \<and> h_primaryKey h = co_primaryKey opts
       \<and> h_comparator h = co_comparator opts"
proof (cases "truthy (root_lookup db (co_name opts))")
  case False
  then show ?thesis using assms
    by (auto simp: db_collection_def Let_def map_of_set_field construct_empty)
next
  case True
  show ?thesis
  proof (cases "root_lookup db (co_name opts)")
    case (Arr a)
    then have m: "map_of (data db) (co_name opts) = Some (Arr a)"
      by (auto simp: root_lookup_def split: option.splits if_splits)
    show ?thesis using assms True Arr m
      by (auto simp: db_collection_def Let_def split: sum.splits)
  next
    case (Prim v)
    then show ?thesis using assms True by (simp add: db_collection_def Let_def)
  next
    case (Obj el)
    then show ?thesis using assms True by (simp add: db_collection_def Let_def)
  next
    case Inherited
    then show ?thesis using assms True by (simp add: db_collection_def Let_def)
  qed
qed

lemma db_collection_same_array:
  assumes "db_collection db o1 = (Inr c1, db1)" "db_collection db1 o2 = (Inr c2, db2)"
    and "co_name o1 = co_name o2"
  shows "h_elements c1 = h_elements c2"
proof -
  have l: "root_lookup db1 (co_name o2) = Arr (h_elements c1)"
    using db_collection_ok[OF assms(1)] assms(3) by (simp add: root_lookup_def)
  have "\<not> sort_throws o2 (heap db1 (h_elements c1))"
    using db_collection_array_throws[OF l] assms(2) by auto
  from db_collection_array[OF l this] assms(2) show ?thesis by auto
qed

lemma db_insert_success:
  assumes "db_insert db h el = Some (Fulfilled True, db')"
  shows "\<exists>c c'. view db h = Some c \<and> Collection_insert c el = (Fulfilled True, c')
            \<and> heap db' (h_elements h) = map Rec (elements c')"
  using assms
  by (auto simp: db_insert_def commit_def Let_def split: option.splits prod.splits if_splits)

lemma view_fields:
  assumes "view db h = Some c"
  shows "primaryKey c = Some (h_primaryKey h) \<and> heap db (h_elements h) = map Rec (elements c)
       \<and> comparator c = map_option on_records (h_comparator h)"
  using assms by (auto simp: view_def split: option.splits dest: records_Some)

lemma load_root_unhandled: "unhandled (load_root ps db) = unhandled db"
  by (induction ps db rule: load_root.induct) simp_all

lemma connect_sync_failure:
  assumes "rd = ReadThrows \<or> (\<exists>s. rd = ReadText s \<and> parse s = None)"
  shows "connect parse rd init = load_root init empty_database"
  using assms by (auto simp: connect_def connect_data_def read_rejections_def empty_database_def)

text \<open>The example databases, evaluated.\<close>

lemma users_db_facts:
  "data users_db = [(''users'', Arr 0)]"
  "heap users_db 0 = [Rec [(''id'', JNum 1)], Rec [(''id'', JNum 3)]]"
  by (simp_all add: users_db_def connect_def connect_data_def users_init_def empty_database_def)

lemma users_construct:
  "construct users_opts [Rec [(''id'', JNum 1)], Rec [(''id'', JNum 3)]]
     = Inr [Rec [(''id'', JNum 1)], Rec [(''id'', JNum 3)]]"
  "construct users_opts_desc [Rec [(''id'', JNum 1)], Rec [(''id'', JNum 3)]]
     = Inr [Rec [(''id'', JNum 3)], Rec [(''id'', JNum 1)]]"
  by (simp_all add: construct_def sort_throws_def users_opts_def users_opts_desc_def
      Collection_new_def the_comparator_def defaultComparator_def key_of_def pk_name_def
      get_field_def js_sort_def js_gt_def on_records_def descending_id_def item_id_def)

lemma users_db1_facts:
  "db_collection users_db users_opts = (Inr users_handle, users_db1)"
  "data users_db1 = [(''users'', Arr 0)]"
  "heap users_db1 0 = [Rec [(''id'', JNum 1)], Rec [(''id'', JNum 3)]]"
proof -
  have l: "root_lookup users_db ''users'' = Arr 0"
    by (simp add: root_lookup_def users_db_facts)
  have r: "db_collection users_db users_opts
      = (Inr users_handle,
         users_db\<lparr>heap := (heap users_db)(0 := [Rec [(''id'', JNum 1)], Rec [(''id'', JNum 3)]])\<rparr>)"
    using l users_construct(1) users_db_facts(2)
    by (simp add: db_collection_def Let_def users_handle_def) (simp add: users_opts_def)
  show "db_collection users_db users_opts = (Inr users_handle, users_db1)"
    unfolding users_db1_def by (simp add: r)
  show "data users_db1 = [(''users'', Arr 0)]"
    unfolding users_db1_def by (simp add: r users_db_facts)
  show "heap users_db1 0 = [Rec [(''id'', JNum 1)], Rec [(''id'', JNum 3)]]"
    unfolding users_db1_def by (simp add: r)
qed

lemma users_db2_facts:
  "db_collection users_db1 users_opts = (Inr users_handle, users_db2)"
  "heap users_db2 0 = [Rec [(''id'', JNum 1)], Rec [(''id'', JNum 3)]]"
proof -
  have l: "root_lookup users_db1 ''users'' = Arr 0"
    by (simp add: root_lookup_def users_db1_facts)
  have r: "db_collection users_db1 users_opts
      = (Inr users_handle,
         users_db1\<lparr>heap := (heap users_db1)(0 := [Rec [(''id'', JNum 1)], Rec [(''id'', JNum 3)]])\<rparr>)"
    using l users_construct(1) users_db1_facts(3)
    by (simp add: db_collection_def Let_def users_handle_def) (simp add: users_opts_def)
  show "db_collection users_db1 users_opts = (Inr users_handle, users_db2)"
    unfolding users_db2_def by (simp add: r)
  show "heap users_db2 0 = [Rec [(''id'', JNum 1)], Rec [(''id'', JNum 3)]]"
    unfolding users_db2_def by (simp add: r)
qed

lemma users_db2_desc_facts:
  "db_collection users_db1 users_opts_desc = (Inr users_handle_desc, users_db2_desc)"
  "heap users_db2_desc 0 = [Rec [(''id'', JNum 3)], Rec [(''id'', JNum 1)]]"
proof -
  have l: "root_lookup users_db1 ''users'' = Arr 0"
    by (simp add: root_lookup_def users_db1_facts)
  have r: "db_collection users_db1 users_opts_desc
      = (Inr users_handle_desc,
         users_db1\<lparr>heap := (heap users_db1)(0 := [Rec [(''id'', JNum 3)], Rec [(''id'', JNum 1)]])\<rparr>)"
    using l users_construct(2) users_db1_facts(3)
    by (simp add: db_collection_def Let_def users_handle_desc_def) (simp add: users_opts_desc_def)
  show "db_collection users_db1 users_opts_desc = (Inr users_handle_desc, users_db2_desc)"
    unfolding users_db2_desc_def by (simp add: r)
  show "heap users_db2_desc 0 = [Rec [(''id'', JNum 3)], Rec [(''id'', JNum 1)]]"
    unfolding users_db2_desc_def by (simp add: r)
qed

section \<open>The claims\<close>

text \<open>
  C1 (as amended). For every collection whose ordering is a consistent total ordering that
  compares two elements equal exactly when their keys are equal, and whose backing array
  is sorted by it once construction has finished, and for every sequence of \<open>insert\<close>,
  \<open>update\<close>, \<open>remove\<close> and \<open>removeAll\<close> calls whose arguments carry keys of that
  ordering, sorting the records from scratch with the collection's ordering gives the
  collection's iteration order afterwards.
\<close>

theorem mutations_keep_sorted:
  assumes "coll_inv K c" and "\<forall>x\<in>set ops. op_ok K (pkey c) x"
  shows "js_sort (the_comparator (run_ops c ops)) (elements (run_ops c ops))
         = elements (run_ops c ops)"
  using inv_run_ops[OF assms] by (simp add: coll_inv_def js_sort_sorted_id)

text \<open>The theorem at a collection with the default comparator on numeric keys, after
  one call of each method.\<close>

theorem mutations_keep_sorted_witness:
  "coll_inv is_num
     (Collection_new \<lparr>opt_name = ''users'', opt_comparator = None,
        opt_elements = [[(''id'', JNum 1)], [(''id'', JNum 3)]], opt_primaryKey = ''id''\<rparr>)
   \<and> list_all (op_ok is_num ''id'')
        [Insert [(''id'', JNum 2)], Update [(''id'', JNum 3), (''name'', JStr ''Wu'')],
         Remove [(''id'', JNum 1)], RemoveAll None]
   \<and> js_sort (defaultComparator (Some ''id''))
        (elements (run_ops (Collection_new \<lparr>opt_name = ''users'', opt_comparator = None,
           opt_elements = [[(''id'', JNum 1)], [(''id'', JNum 3)]], opt_primaryKey = ''id''\<rparr>)
          [Insert [(''id'', JNum 2)], Update [(''id'', JNum 3), (''name'', JStr ''Wu'')],
           Remove [(''id'', JNum 1)], RemoveAll None]))
     = elements (run_ops (Collection_new \<lparr>opt_name = ''users'', opt_comparator = None,
           opt_elements = [[(''id'', JNum 1)], [(''id'', JNum 3)]], opt_primaryKey = ''id''\<rparr>)
          [Insert [(''id'', JNum 2)], Update [(''id'', JNum 3), (''name'', JStr ''Wu'')],
           Remove [(''id'', JNum 1)], RemoveAll None])"
  (is "coll_inv is_num ?c \<and> list_all _ ?ops \<and> _")
proof -
  have cmp: "the_comparator ?c = defaultComparator (Some ''id'')" and pk: "pkey ?c = ''id''"
    by (simp_all add: Collection_new_def the_comparator_def pk_name_def)
  have els: "elements ?c = [[(''id'', JNum 1)], [(''id'', JNum 3)]]"
    by (simp add: Collection_new_def the_comparator_def defaultComparator_def key_of_def
        pk_name_def get_field_def js_sort_def js_gt_def)
  have h1: "coll_inv is_num ?c"
    unfolding coll_inv_def cmp pk els
    by (simp add: default_ordering_ok[OF lt_total_on_num] sorted_by_def defaultComparator_def
        key_of_def pk_name_def get_field_def js_gt_def)
  have h2: "\<forall>x\<in>set ?ops. op_ok is_num (pkey ?c) x"
    unfolding pk by (simp add: get_field_def is_object_def)
  have "the_comparator (run_ops ?c ?ops) = defaultComparator (Some ''id'')"
    by (simp only: run_ops_frame cmp)
  then show ?thesis
    using h1 h2 mutations_keep_sorted[OF h1 h2] by (simp add: pk)
qed

text \<open>
  C1 as stated fails for an ordering that reads a field an update may change: with
  \<open>score_comparator\<close>, \<open>update({id: 3})\<close> is located at the record \<open>{id: 1, bonus: 2}\<close>
  (both have score 3), the merge raises that record's score to 5, and the array is not
  sorted again.
\<close>

theorem update_breaks_order_counterexample:
  "js_sort score_comparator
     (elements (run_ops
        (Collection_new \<lparr>opt_name = ''users'', opt_comparator = Some score_comparator,
           opt_elements = [[(''id'', JNum 1), (''bonus'', JNum 2)],
                           [(''id'', JNum 4), (''bonus'', JNum 0)]],
           opt_primaryKey = ''id''\<rparr>)
        [Update [(''id'', JNum 3)]]))
   \<noteq> elements (run_ops
        (Collection_new \<lparr>opt_name = ''users'', opt_comparator = Some score_comparator,
           opt_elements = [[(''id'', JNum 1), (''bonus'', JNum 2)],
                           [(''id'', JNum 4), (''bonus'', JNum 0)]],
           opt_primaryKey = ''id''\<rparr>)
        [Update [(''id'', JNum 3)]])"
  by (simp add: run_ops_def Collection_new_def Collection_update_def searchIndex_def
      the_comparator_def startSaving_def score_comparator_def score_def js_sort_def
      get_field_def has_field_def pk_name_def)

text \<open>
  C2. Constructing a collection sorts the initial sequence by the collection's ordering;
  without a comparator, by less-than and greater-than on the key field. The constructor
  sorts before it has assigned \<open>primaryKey\<close>, so the default comparator compares the
  property named \<open>undefined\<close> of every element, finds all elements equal, and the
  sequence \<open>[{id: 2}, {id: 1}]\<close> stays as it is, although sorting it by the key field
  afterwards gives \<open>[{id: 1}, {id: 2}]\<close>.
\<close>

theorem constructor_default_keeps_unsorted:
  "elements (Collection_new \<lparr>opt_name = ''users'', opt_comparator = None,
       opt_elements = [[(''id'', JNum 2)], [(''id'', JNum 1)]], opt_primaryKey = ''id''\<rparr>)
     = [[(''id'', JNum 2)], [(''id'', JNum 1)]]
   \<and> js_sort (the_comparator (Collection_new \<lparr>opt_name = ''users'', opt_comparator = None,
       opt_elements = [[(''id'', JNum 2)], [(''id'', JNum 1)]], opt_primaryKey = ''id''\<rparr>))
       [[(''id'', JNum 2)], [(''id'', JNum 1)]]
     = [[(''id'', JNum 1)], [(''id'', JNum 2)]]
   \<and> \<not> sorted_by (defaultComparator (Some ''id''))
        (elements (Collection_new \<lparr>opt_name = ''users'', opt_comparator = None,
           opt_elements = [[(''id'', JNum 2)], [(''id'', JNum 1)]],
           opt_primaryKey = ''id''\<rparr>))"
  by (simp add: Collection_new_def the_comparator_def defaultComparator_def key_of_def
      pk_name_def get_field_def js_sort_def js_gt_def sorted_by_def)

text \<open>
  C3. \<open>removeAll()\<close> without a predicate empties the collection and returns the number
  of records it held. The loop removes from the array it is iterating over, so every
  removal shifts the next record under the iterator's index and that record is skipped:
  on two records it removes one and returns 1.
\<close>

theorem removeAll_skips:
  "Collection_removeAll
     \<lparr>comparator = None, name = ''users'', primaryKey = Some ''id'',
      elements = [[(''id'', JNum 1)], [(''id'', JNum 2)]], saves = 0\<rparr> None
   = (1, \<lparr>comparator = None, name = ''users'', primaryKey = Some ''id'',
      elements = [[(''id'', JNum 2)]], saves = 1\<rparr>)"
  by (simp add: Collection_removeAll_def Collection_remove_def searchIndex_def startSaving_def
      the_comparator_def defaultComparator_def key_of_def pk_name_def get_field_def
      has_field_def js_gt_def)

text \<open>
  C4 (as amended). In a collection in order (its ordering is a consistent total ordering
  that compares two records equal exactly when their keys are equal, and its array is
  sorted by it), for every record \<open>r\<close> whose key-field value is already held by a stored
  record, \<open>insert(r)\<close> returns false and leaves the collection as it is: nothing is
  replaced, modified or added, and no save is started. In particular, after a successful
  \<open>insert(r)\<close> a second \<open>insert(r)\<close> returns false and changes nothing.
\<close>

theorem insert_key_collision:
  assumes inv: "coll_inv K c" and hf: "has_field r (pkey c)" and Kr: "K (get_field r (pkey c))"
  shows "((\<exists>x\<in>set (elements c). get_field x (pkey c) = get_field r (pkey c))
            \<longrightarrow> Collection_insert c r = (Fulfilled False, c))
       \<and> (\<forall>c'. Collection_insert c r = (Fulfilled True, c')
            \<longrightarrow> Collection_insert c' r = (Fulfilled False, c'))"
proof (intro conjI allI impI)
  assume "\<exists>x\<in>set (elements c). get_field x (pkey c) = get_field r (pkey c)"
  then show "Collection_insert c r = (Fulfilled False, c)"
    using insert_rejects_present_key[OF inv hf Kr] by blast
next
  fix c' assume ins: "Collection_insert c r = (Fulfilled True, c')"
  have c': "c' = snd (Collection_insert c r)" using ins by simp
  have inv': "coll_inv K c'" unfolding c' using inv Kr by (simp add: inv_insert)
  have pk: "pkey c' = pkey c" unfolding c' by (simp add: insert_frame)
  have "r \<in> set (elements c')"
    using insert_success_elements[OF ins] by (auto simp: startSaving_def)
  then show "Collection_insert c' r = (Fulfilled False, c')"
    using insert_rejects_present_key[OF inv', of r r] hf Kr pk by simp
qed

text \<open>The theorem at the three users of the README, inserting a second user 2.\<close>

theorem insert_key_collision_witness:
  "Collection_insert
     \<lparr>comparator = None, name = ''users'', primaryKey = Some ''id'',
      elements = [[(''id'', JNum 1)], [(''id'', JNum 2)], [(''id'', JNum 3)]], saves = 0\<rparr>
     [(''id'', JNum 2), (''name'', JStr ''Liu Zhao'')]
   = (Fulfilled False,
      \<lparr>comparator = None, name = ''users'', primaryKey = Some ''id'',
       elements = [[(''id'', JNum 1)], [(''id'', JNum 2)], [(''id'', JNum 3)]], saves = 0\<rparr>)"
  (is "Collection_insert ?c ?r = _")
proof -
  have inv: "coll_inv is_num ?c"
    by (rule coll_inv_default[where pk="''id''"])
       (simp_all add: lt_total_on_num sorted_by_def defaultComparator_def key_of_def
          pk_name_def get_field_def js_gt_def)
  have hf: "has_field ?r (pkey ?c)" by (simp add: has_field_def pk_name_def)
  have Kr: "is_num (get_field ?r (pkey ?c))" by (simp add: get_field_def pk_name_def)
  show ?thesis
    using insert_key_collision[OF inv hf Kr] by (simp add: get_field_def pk_name_def)
qed

text \<open>
  C4 as stated fails where the ordering does not agree with key equality, which the code
  accepts: under \<open>score_comparator\<close> the record \<open>{id: 1, bonus: 5}\<close> does not compare equal
  to the stored \<open>{id: 1, bonus: 2}\<close>, and \<open>insert\<close> stores it beside the record of the same
  key and returns true.
\<close>

theorem insert_duplicate_key_counterexample:
  "get_field [(''id'', JNum 1), (''bonus'', JNum 2)] ''id''
     = get_field [(''id'', JNum 1), (''bonus'', JNum 5)] ''id''
   \<and> fst (Collection_insert
        (Collection_new \<lparr>opt_name = ''users'', opt_comparator = Some score_comparator,
           opt_elements = [[(''id'', JNum 1), (''bonus'', JNum 2)]], opt_primaryKey = ''id''\<rparr>)
        [(''id'', JNum 1), (''bonus'', JNum 5)]) = Fulfilled True
   \<and> elements (snd (Collection_insert
        (Collection_new \<lparr>opt_name = ''users'', opt_comparator = Some score_comparator,
           opt_elements = [[(''id'', JNum 1), (''bonus'', JNum 2)]], opt_primaryKey = ''id''\<rparr>)
        [(''id'', JNum 1), (''bonus'', JNum 5)]))
     = [[(''id'', JNum 1), (''bonus'', JNum 2)], [(''id'', JNum 1), (''bonus'', JNum 5)]]"
  by (simp add: Collection_new_def Collection_insert_def searchIndex_def the_comparator_def
      startSaving_def score_comparator_def score_def js_sort_def get_field_def has_field_def
      pk_name_def)




text \<open>
  C6 (as amended). For every argument that lacks the key field, \<open>find\<close> throws a
  \<open>TypeError\<close> to its caller, and \<open>update\<close> and \<open>remove\<close>, which are \<open>async\<close>, return a
  promise rejected with a \<open>TypeError\<close>; in each case the backing sequence is unchanged
  and no save has been started.
\<close>

theorem missing_key_rejected:
  assumes "\<not> has_field el (pkey c)"
  shows "Collection_find c el = Inl TypeError
       \<and> Collection_update c el = (Rejected TypeError, c)
       \<and> Collection_remove c el = (Rejected TypeError, c)"
  using assms
  by (simp add: Collection_find_def Collection_update_def Collection_remove_def searchIndex_def)

theorem missing_key_rejected_witness:
  "\<not> has_field [(''name'', JStr ''Wu'')]
       (pkey \<lparr>comparator = None, name = ''users'', primaryKey = Some ''id'',
              elements = [[(''id'', JNum 1)]], saves = 0\<rparr>)
   \<and> Collection_remove
         \<lparr>comparator = None, name = ''users'', primaryKey = Some ''id'',
          elements = [[(''id'', JNum 1)]], saves = 0\<rparr> [(''name'', JStr ''Wu'')]
       = (Rejected TypeError,
          \<lparr>comparator = None, name = ''users'', primaryKey = Some ''id'',
           elements = [[(''id'', JNum 1)]], saves = 0\<rparr>)"
proof -
  have h: "\<not> has_field [(''name'', JStr ''Wu'')]
       (pkey \<lparr>comparator = None, name = ''users'', primaryKey = Some ''id'',
              elements = [[(''id'', JNum 1)]], saves = 0\<rparr>)"
    by (simp add: has_field_def pk_name_def)
  show ?thesis using h missing_key_rejected[OF h] by simp
qed

text \<open>
  C6 as stated has \<open>update\<close> raise the error synchronously to its immediate caller. The
  caller of \<open>update\<close> is handed a promise, rejected with the error, and no exception.
\<close>

theorem missing_key_rejected_counterexample:
  "fst (call_async (Collection_update
      \<lparr>comparator = None, name = ''users'', primaryKey = Some ''id'',
       elements = [[(''id'', JNum 1)]], saves = 0\<rparr> [(''name'', JStr ''Wu'')]))
   = Inr (Rejected TypeError)"
  by (simp add: call_async_def Collection_update_def pk_name_def has_field_def)

text \<open>
  C10. With the default comparator and key-field values on which \<open><\<close> is a strict total
  order, every successful update changes exactly one index of the backing array, the
  record at that index keeps its key-field value, and it compares equal to the record it
  replaces: its place in the order is the same.
\<close>

theorem update_keeps_key:
  assumes dflt: "comparator c = None" and pk: "primaryKey c = Some pk"
    and tot: "lt_total_on K"
    and Kel: "K (get_field el pk)" and Ks: "\<forall>x\<in>set (elements c). K (get_field x pk)"
    and obj: "is_object el"
    and upd: "Collection_update c el = (Fulfilled True, c')"
  shows "\<exists>i<length (elements c).
           elements c' = (elements c)[i := assign (elements c ! i) el]
         \<and> get_field (elements c' ! i) pk = get_field (elements c ! i) pk
         \<and> defaultComparator (Some pk) (elements c' ! i) (elements c ! i) = 0"
proof -
  have cmp: "the_comparator c = defaultComparator (Some pk)"
    using dflt pk by (simp add: the_comparator_def)
  have pkc: "pkey c = pk" using pk by (simp add: pk_name_def)
  from upd obtain i where hf: "has_field el pk" and si: "searchIndex c el = Inr (i, True)"
    and c': "c' = startSaving (c\<lparr>elements := (elements c)[i := assign (elements c ! i) el]\<rparr>)"
    unfolding Collection_update_def pkc
    by (auto split: sum.splits prod.splits if_splits)
  note fd = searchIndex_found[OF si]
  have Ki: "K (get_field (elements c ! i) pk)" using Ks fd by simp
  have ok: "ordering_ok (defaultComparator (Some pk)) pk K" by (rule default_ordering_ok[OF tot])
  have keq: "get_field el pk = get_field (elements c ! i) pk"
    using ok_eq[OF ok Kel Ki] fd cmp by simp
  have km: "get_field (assign (elements c ! i) el) pk = get_field (elements c ! i) pk"
    using get_field_assign[OF obj hf] keq by simp
  have "K (get_field (assign (elements c ! i) el) pk)" using km Ki by simp
  then have "defaultComparator (Some pk) (assign (elements c ! i) el) (elements c ! i) = 0"
    using ok_eq[OF ok _ Ki] km by simp
  then show ?thesis using fd km c' by (auto simp: startSaving_def)
qed

text \<open>The theorem at an update of the name of user 3.\<close>

theorem update_keeps_key_witness:
  "\<exists>i<length (elements
        \<lparr>comparator = None, name = ''users'', primaryKey = Some ''id'',
         elements = [[(''id'', JNum 1)], [(''id'', JNum 3), (''name'', JStr ''Wu Wang'')]],
         saves = 0\<rparr>).
      elements
        \<lparr>comparator = None, name = ''users'', primaryKey = Some ''id'',
         elements = [[(''id'', JNum 1)], [(''id'', JNum 3), (''name'', JStr ''Liu Zhao'')]],
         saves = 1\<rparr>
      = (elements
          \<lparr>comparator = None, name = ''users'', primaryKey = Some ''id'',
           elements = [[(''id'', JNum 1)], [(''id'', JNum 3), (''name'', JStr ''Wu Wang'')]],
           saves = 0\<rparr>)
        [i := assign
           (elements
              \<lparr>comparator = None, name = ''users'', primaryKey = Some ''id'',
               elements = [[(''id'', JNum 1)], [(''id'', JNum 3), (''name'', JStr ''Wu Wang'')]],
               saves = 0\<rparr> ! i)
           [(''id'', JNum 3), (''name'', JStr ''Liu Zhao'')]]
    \<and> get_field
        (elements
           \<lparr>comparator = None, name = ''users'', primaryKey = Some ''id'',
            elements = [[(''id'', JNum 1)], [(''id'', JNum 3), (''name'', JStr ''Liu Zhao'')]],
            saves = 1\<rparr> ! i) ''id''
      = get_field
        (elements
           \<lparr>comparator = None, name = ''users'', primaryKey = Some ''id'',
            elements = [[(''id'', JNum 1)], [(''id'', JNum 3), (''name'', JStr ''Wu Wang'')]],
            saves = 0\<rparr> ! i) ''id''
    \<and> defaultComparator (Some ''id'')
        (elements
           \<lparr>comparator = None, name = ''users'', primaryKey = Some ''id'',
            elements = [[(''id'', JNum 1)], [(''id'', JNum 3), (''name'', JStr ''Liu Zhao'')]],
            saves = 1\<rparr> ! i)
        (elements
           \<lparr>comparator = None, name = ''users'', primaryKey = Some ''id'',
            elements = [[(''id'', JNum 1)], [(''id'', JNum 3), (''name'', JStr ''Wu Wang'')]],
            saves = 0\<rparr> ! i) = 0"
proof -
  have upd: "Collection_update
     \<lparr>comparator = None, name = ''users'', primaryKey = Some ''id'',
      elements = [[(''id'', JNum 1)], [(''id'', JNum 3), (''name'', JStr ''Wu Wang'')]],
      saves = 0\<rparr>
     [(''id'', JNum 3), (''name'', JStr ''Liu Zhao'')]
   = (Fulfilled True,
      \<lparr>comparator = None, name = ''users'', primaryKey = Some ''id'',
       elements = [[(''id'', JNum 1)], [(''id'', JNum 3), (''name'', JStr ''Liu Zhao'')]],
       saves = 1\<rparr>)"
    by (simp add: Collection_update_def searchIndex_def startSaving_def the_comparator_def
        defaultComparator_def key_of_def pk_name_def get_field_def has_field_def js_gt_def)
  show ?thesis
    by (rule update_keeps_key[OF _ _ lt_total_on_num _ _ _ upd])
       (simp_all add: get_field_def is_object_def)
qed

text \<open>
  C7 (as amended). For every collection name requested from the factory, the value read
  under the name being the root object's own or, failing that, the member every object
  inherits under it (as for \<open>toString\<close>): if there is no value or a falsy one (\<open>null\<close>,
  \<open>false\<close>, \<open>0\<close>, the empty string), an empty array is created and stored under the name;
  if the value is an array, that array is the collection's, unless no comparator is
  supplied and the array holds \<open>null\<close> among two or more entries; and a \<open>TypeError\<close> is
  thrown exactly when the value is truthy and not an array, or in that case of \<open>null\<close>,
  where the default comparator of the constructor's sort reads a property of \<open>null\<close>. (The
  entries of an array are records or \<open>null\<close>, and a supplied comparator is taken not to
  throw.)
\<close>

theorem factory_get_or_create:
  "(\<not> truthy (root_lookup db (co_name opts)) \<longrightarrow>
      (\<exists>h db'. db_collection db opts = (Inr h, db') \<and> h_elements h = fresh db
         \<and> heap db' (fresh db) = []
         \<and> map_of (data db') (co_name opts) = Some (Arr (fresh db))))
   \<and> (\<forall>a. root_lookup db (co_name opts) = Arr a \<longrightarrow> \<not> sort_throws opts (heap db a) \<longrightarrow>
      (\<exists>h db'. db_collection db opts = (Inr h, db') \<and> h_elements h = a \<and> data db' = data db))
   \<and> ((fst (db_collection db opts) = Inl TypeError)
        = ((truthy (root_lookup db (co_name opts)) \<and> \<not> is_array (root_lookup db (co_name opts)))
           \<or> (\<exists>a. root_lookup db (co_name opts) = Arr a \<and> sort_throws opts (heap db a))))"
proof (intro conjI allI impI)
  assume "\<not> truthy (root_lookup db (co_name opts))"
  then show "\<exists>h db'. db_collection db opts = (Inr h, db') \<and> h_elements h = fresh db
         \<and> heap db' (fresh db) = []
         \<and> map_of (data db') (co_name opts) = Some (Arr (fresh db))"
    by (rule db_collection_falsy)
next
  fix a assume "root_lookup db (co_name opts) = Arr a" "\<not> sort_throws opts (heap db a)"
  from db_collection_array[OF this]
  show "\<exists>h db'. db_collection db opts = (Inr h, db') \<and> h_elements h = a \<and> data db' = data db"
    by blast
next
  show "(fst (db_collection db opts) = Inl TypeError)
        = ((truthy (root_lookup db (co_name opts)) \<and> \<not> is_array (root_lookup db (co_name opts)))
           \<or> (\<exists>a. root_lookup db (co_name opts) = Arr a \<and> sort_throws opts (heap db a)))"
    by (rule db_collection_error)
qed

text \<open>The theorem at a root object without the name, at one with an array of records
  under it, at one with an object under it, at the inherited name \<open>toString\<close>, and at the
  array \<open>[null, {id: 1}]\<close>.\<close>

theorem factory_get_or_create_witness:
  "fst (db_collection empty_database users_opts) = Inr users_handle
   \<and> fst (db_collection (connect (\<lambda>s. None) ReadThrows users_init) users_opts) = Inr users_handle
   \<and> fst (db_collection (empty_database\<lparr>data := [(''users'', Obj [(''id'', JNum 1)])]\<rparr>)
            users_opts) = Inl TypeError
   \<and> fst (db_collection empty_database
            \<lparr>co_name = ''toString'', co_primaryKey = ''id'', co_comparator = None\<rparr>)
       = Inl TypeError
   \<and> fst (db_collection
            (connect (\<lambda>s. None) ReadThrows [(''users'', PArr [Null, Rec [(''id'', JNum 1)]])])
            users_opts) = Inl TypeError"
proof -
  let ?dbo = "empty_database\<lparr>data := [(''users'', Obj [(''id'', JNum 1)])]\<rparr>"
  let ?ts = "\<lparr>co_name = ''toString'', co_primaryKey = ''id'', co_comparator = None\<rparr>"
  let ?dbn = "connect (\<lambda>s. None) ReadThrows [(''users'', PArr [Null, Rec [(''id'', JNum 1)]])]"
  let ?dbu = "connect (\<lambda>s. None) ReadThrows users_init"
  have a: "\<not> truthy (root_lookup empty_database (co_name users_opts))"
    by (simp add: root_lookup_def empty_database_def users_opts_def object_prototype_names_def)
  have b: "root_lookup ?dbu (co_name users_opts) = Arr 0"
    "\<not> sort_throws users_opts (heap ?dbu 0)"
    by (simp_all add: root_lookup_def connect_def connect_data_def users_init_def users_opts_def
        empty_database_def sort_throws_def)
  have c: "truthy (root_lookup ?dbo (co_name users_opts))
      \<and> \<not> is_array (root_lookup ?dbo (co_name users_opts))"
    by (simp add: root_lookup_def users_opts_def)
  have d: "truthy (root_lookup empty_database (co_name ?ts))
      \<and> \<not> is_array (root_lookup empty_database (co_name ?ts))"
    by (simp add: root_lookup_def empty_database_def object_prototype_names_def)
  have e: "root_lookup ?dbn (co_name users_opts) = Arr 0 \<and> sort_throws users_opts (heap ?dbn 0)"
    by (simp add: root_lookup_def connect_def connect_data_def users_opts_def
        empty_database_def sort_throws_def)
  have 1: "fst (db_collection empty_database users_opts) = Inr users_handle"
    using a factory_get_or_create[of empty_database users_opts]
      db_collection_ok[of empty_database users_opts]
    by (auto simp: users_opts_def users_handle_def empty_database_def)
  have 2: "fst (db_collection ?dbu users_opts) = Inr users_handle"
    using b factory_get_or_create[of ?dbu users_opts] db_collection_ok[of ?dbu users_opts]
    by (auto simp: users_opts_def users_handle_def)
  have 3: "fst (db_collection ?dbo users_opts) = Inl TypeError"
    using c factory_get_or_create[of ?dbo users_opts] by simp
  have 4: "fst (db_collection empty_database ?ts) = Inl TypeError"
    using d factory_get_or_create[of empty_database ?ts] by simp
  have 5: "fst (db_collection ?dbn users_opts) = Inl TypeError"
    using e factory_get_or_create[of ?dbn users_opts] by blast
  show ?thesis using 1 2 3 4 5 by simp
qed

text \<open>
  C7 as stated has the factory throw whenever the value present is not an array. With
  \<open>null\<close> under the name, as the file \<open>{"users": null}\<close> gives, \<open>||\<close> takes the value for
  absent: the factory stores a new array and returns a collection.
\<close>

theorem factory_falsy_value_counterexample:
  "map_of (data (empty_database\<lparr>data := [(''users'', Prim JNull)]\<rparr>)) (co_name users_opts)
     = Some (Prim JNull)
   \<and> fst (db_collection (empty_database\<lparr>data := [(''users'', Prim JNull)]\<rparr>) users_opts)
     = Inr users_handle"
  by (simp add: db_collection_def root_lookup_def users_opts_def users_handle_def
      empty_database_def Let_def construct_empty)

text \<open>
  C8. When the file cannot be read, \<open>connect\<close> surfaces no error and takes \<open>init\<close> for the
  root object. With the \<open>read\<close> of \<open>createFile\<close>, which is \<open>async\<close>, \<open>connect\<close> does take
  \<open>init\<close>, but it has passed the promise to \<open>JSON.parse\<close> and dropped it: the rejection
  of the failed read is left unhandled, and surfaces once \<open>connect\<close> has returned. (With
  a \<open>read\<close> that is synchronous the claim holds: \<open>connect_sync_failure\<close>.)
\<close>

theorem connect_async_read_unhandled:
  "connect_data parse (ReadPromise True) init = init
   \<and> unhandled (connect parse (ReadPromise True) init) = [ReadError]"
  by (simp add: connect_def connect_data_def read_rejections_def load_root_unhandled)

text \<open>
  C9 (as amended). Two collections obtained from the same connection for the same name
  hold the same backing array: a record inserted through the first is in the array of the
  second, and \<open>find\<close> on the second returns it when both collections are in order on the
  same key field, each by its own ordering.
\<close>

theorem shared_backing_array:
  assumes f1: "db_collection db o1 = (Inr c1, db1)" and f2: "db_collection db1 o2 = (Inr c2, db2)"
    and nm: "co_name o1 = co_name o2"
  shows "h_elements c1 = h_elements c2
       \<and> (\<forall>el db3. db_insert db2 c1 el = Some (Fulfilled True, db3) \<longrightarrow>
            Rec el \<in> set (heap db3 (h_elements c2))
          \<and> (\<forall>v1 v2. co_primaryKey o1 = co_primaryKey o2 \<longrightarrow>
                view db2 c1 = Some v1 \<longrightarrow> view db3 c2 = Some v2 \<longrightarrow>
                coll_inv K v1 \<longrightarrow> coll_inv K v2 \<longrightarrow> K (get_field el (co_primaryKey o1)) \<longrightarrow>
                db_find db3 c2 el = Some (Inr (Some el))))"
proof (intro conjI allI impI)
  show same: "h_elements c1 = h_elements c2" by (rule db_collection_same_array[OF f1 f2 nm])
  fix el db3 assume ins: "db_insert db2 c1 el = Some (Fulfilled True, db3)"
  obtain c c' where c: "view db2 c1 = Some c"
    and c': "Collection_insert c el = (Fulfilled True, c')"
    and h3: "heap db3 (h_elements c1) = map Rec (elements c')"
    using db_insert_success[OF ins] by blast
  have "el \<in> set (elements c')"
    using insert_success_elements[OF c'] by (auto simp: startSaving_def)
  then show "Rec el \<in> set (heap db3 (h_elements c2))"
    using h3 same by simp
  fix v1 v2
  assume pk: "co_primaryKey o1 = co_primaryKey o2"
    and v1: "view db2 c1 = Some v1" and v2: "view db3 c2 = Some v2"
    and inv1: "coll_inv K v1" and inv2: "coll_inv K v2"
    and Kel: "K (get_field el (co_primaryKey o1))"
  have cv: "c = v1" using c v1 by simp
  have pk1: "pkey v1 = co_primaryKey o1"
    using view_fields[OF v1] db_collection_ok[OF f1] by (simp add: pk_name_def)
  have pk2: "pkey v2 = co_primaryKey o1"
    using view_fields[OF v2] db_collection_ok[OF f2] pk by (simp add: pk_name_def)
  have "map Rec (elements v2) = map Rec (elements c')"
    using view_fields[OF v2] h3 same by simp
  then have e2: "elements v2 = elements c'"
    by (simp add: inj_map_eq_map inj_on_def)
  have Kel1: "K (get_field el (pkey v1))" using Kel pk1 by simp
  have once: "holds_once (pkey v2) (get_field el (co_primaryKey o1)) el (elements v2)"
    using holds_once_after_insert[OF inv1 Kel1 c'[unfolded cv]] by (simp add: pk1 pk2 e2)
  have hf: "has_field el (pkey v2)"
    using insert_success_elements[OF c'[unfolded cv]] searchIndex_has_field[of v1 el]
    by (auto simp: pk1 pk2)
  have "Collection_find v2 el = Inr (Some el)"
    by (rule find_tracked[OF inv2 once hf]) (simp_all add: pk2 Kel)
  then show "db_find db3 c2 el = Some (Inr (Some el))"
    by (simp add: db_find_def v2)
qed

text \<open>The theorem at two collections for \<open>users\<close> with the default comparator, inserting
  user 2 through one and finding it through the other.\<close>

theorem shared_backing_array_witness:
  "db_find
     (commit users_db2 users_handle
        \<lparr>comparator = None, name = ''users'', primaryKey = Some ''id'',
         elements = [[(''id'', JNum 1)], [(''id'', JNum 2)], [(''id'', JNum 3)]], saves = 1\<rparr>)
     users_handle [(''id'', JNum 2)]
   = Some (Inr (Some [(''id'', JNum 2)]))"
proof -
  let ?el = "[(''id'', JNum 2)]"
  let ?v1 = "\<lparr>comparator = None, name = ''users'', primaryKey = Some ''id'',
       elements = [[(''id'', JNum 1)], [(''id'', JNum 3)]], saves = 0\<rparr>"
  let ?c' = "\<lparr>comparator = None, name = ''users'', primaryKey = Some ''id'',
       elements = [[(''id'', JNum 1)], [(''id'', JNum 2)], [(''id'', JNum 3)]], saves = 1\<rparr>"
  let ?v2 = "\<lparr>comparator = None, name = ''users'', primaryKey = Some ''id'',
       elements = [[(''id'', JNum 1)], [(''id'', JNum 2)], [(''id'', JNum 3)]], saves = 0\<rparr>"
  let ?db3 = "commit users_db2 users_handle ?c'"
  have v1: "view users_db2 users_handle = Some ?v1"
    by (simp add: view_def users_handle_def users_db2_facts(2))
  have ci: "Collection_insert ?v1 ?el = (Fulfilled True, ?c')"
    by (simp add: Collection_insert_def searchIndex_def startSaving_def the_comparator_def
        defaultComparator_def key_of_def pk_name_def get_field_def has_field_def js_gt_def)
  have ins: "db_insert users_db2 users_handle ?el = Some (Fulfilled True, ?db3)"
    by (simp add: db_insert_def v1 ci)
  have v2: "view ?db3 users_handle = Some ?v2"
    by (simp add: view_def commit_def users_handle_def Let_def)
  have inv1: "coll_inv is_num ?v1"
    by (rule coll_inv_default[where pk="''id''"])
       (simp_all add: lt_total_on_num sorted_by_def defaultComparator_def key_of_def
          pk_name_def get_field_def js_gt_def)
  have inv2: "coll_inv is_num ?v2"
    by (rule coll_inv_default[where pk="''id''"])
       (simp_all add: lt_total_on_num sorted_by_def defaultComparator_def key_of_def
          pk_name_def get_field_def js_gt_def)
  have K: "is_num (get_field ?el (co_primaryKey users_opts))"
    by (simp add: get_field_def users_opts_def)
  show ?thesis
    using shared_backing_array[OF users_db1_facts(1) users_db2_facts(1) refl, of is_num]
      ins v1 v2 inv1 inv2 K by blast
qed

text \<open>
  C9 as stated fails where the two collections are given different orderings, which the
  factory accepts: the second collection, made with \<open>descending_id\<close>, sorts the shared
  array to \<open>[3, 1]\<close>; \<open>insert({id: 2})\<close> through the first, which searches in ascending
  order, puts the record in front and returns true; and \<open>find({id: 2})\<close> on the second
  searches \<open>[2, 3, 1]\<close> in descending order and finds nothing.
\<close>

theorem shared_array_two_orderings_counterexample:
  "db_collection users_db users_opts = (Inr users_handle, users_db1)
   \<and> db_collection users_db1 users_opts_desc = (Inr users_handle_desc, users_db2_desc)
   \<and> co_name users_opts = co_name users_opts_desc
   \<and> db_insert users_db2_desc users_handle [(''id'', JNum 2)]
     = Some (Fulfilled True,
         commit users_db2_desc users_handle
           \<lparr>comparator = None, name = ''users'', primaryKey = Some ''id'',
            elements = [[(''id'', JNum 2)], [(''id'', JNum 3)], [(''id'', JNum 1)]],
            saves = 1\<rparr>)
   \<and> db_find
       (commit users_db2_desc users_handle
           \<lparr>comparator = None, name = ''users'', primaryKey = Some ''id'',
            elements = [[(''id'', JNum 2)], [(''id'', JNum 3)], [(''id'', JNum 1)]],
            saves = 1\<rparr>)
       users_handle_desc [(''id'', JNum 2)]
     = Some (Inr None)"
proof -
  let ?el = "[(''id'', JNum 2)]"
  let ?v1 = "\<lparr>comparator = None, name = ''users'', primaryKey = Some ''id'',
       elements = [[(''id'', JNum 3)], [(''id'', JNum 1)]], saves = 0\<rparr>"
  let ?c' = "\<lparr>comparator = None, name = ''users'', primaryKey = Some ''id'',
       elements = [[(''id'', JNum 2)], [(''id'', JNum 3)], [(''id'', JNum 1)]], saves = 1\<rparr>"
  let ?db3 = "commit users_db2_desc users_handle ?c'"
  have v1: "view users_db2_desc users_handle = Some ?v1"
    by (simp add: view_def users_handle_def users_db2_desc_facts(2))
  have ci: "Collection_insert ?v1 ?el = (Fulfilled True, ?c')"
    by (simp add: Collection_insert_def searchIndex_def startSaving_def the_comparator_def
        defaultComparator_def key_of_def pk_name_def get_field_def has_field_def js_gt_def)
  have ins: "db_insert users_db2_desc users_handle ?el = Some (Fulfilled True, ?db3)"
    by (simp add: db_insert_def v1 ci)
  have v2: "view ?db3 users_handle_desc
      = Some \<lparr>comparator = Some (on_records descending_id), name = ''users'',
              primaryKey = Some ''id'',
              elements = [[(''id'', JNum 2)], [(''id'', JNum 3)], [(''id'', JNum 1)]],
              saves = 0\<rparr>"
    by (simp add: view_def commit_def users_handle_def users_handle_desc_def Let_def)
  have fd: "db_find ?db3 users_handle_desc ?el = Some (Inr None)"
    unfolding db_find_def v2
    by (simp add: Collection_find_def searchIndex_def the_comparator_def on_records_def
        descending_id_def item_id_def pk_name_def get_field_def has_field_def)
  show ?thesis
    using users_db1_facts(1) users_db2_desc_facts(1) ins fd
    by (simp add: users_opts_def users_opts_desc_def)
qed

end
